theory Spec2Isabelle
  imports Complex_Main "HOL-Library.Word" "HOL-Library.Signed_Division" "HOL-Library.Monad_Syntax"
    "HOL-Library.Sublist"
begin

unbundle bit_operations_syntax

section \<open>C doubles\<close>

text \<open>
  A finite C \<^verbatim>\<open>double\<close> is modelled by the real number it denotes. Every arithmetic
  operation of the source computes the exact result and rounds it to binary64: 53 significant
  bits, round to nearest, ties to even (\<open>rn64\<close>). The exponent range is left unbounded: no
  value of this program comes near the overflow or the subnormal range. Infinities and NaN are
  not reals; the places of the source where they can arise (a division by zero, the logarithm
  of a non-positive number) are written out where they occur.

  \<open>lg2 x\<close> is the binary exponent of a positive \<open>x\<close>: \<open>2 ^ lg2 x \<le> x < 2 ^ (lg2 x + 1)\<close>.
\<close>

type_synonym double = real

function lg2 :: "real \<Rightarrow> int" where
  "lg2 x = (if x \<le> 0 then 0
            else if 2 \<le> x then lg2 (x / 2) + 1
            else if x < 1 then lg2 (2 * x) - 1
            else 0)"
  by pat_completeness auto
termination
proof (relation "measure (\<lambda>x. nat (2 * \<lceil>1 / x\<rceil> + \<lfloor>x\<rfloor>))")
  show "wf (measure (\<lambda>x. nat (2 * \<lceil>1 / x\<rceil> + \<lfloor>x\<rfloor>)))" by simp
next
  fix x :: real assume a: "\<not> x \<le> 0" "2 \<le> x"
  have c1: "\<lceil>1 / x\<rceil> = 1" using a by (intro ceiling_unique) auto
  have c2: "\<lceil>1 / (x / 2)\<rceil> = 1" using a by (intro ceiling_unique) auto
  have "\<lfloor>x / 2\<rfloor> < \<lfloor>x\<rfloor>" using a by linarith
  moreover have "0 \<le> \<lfloor>x / 2\<rfloor>" using a by simp
  ultimately have "nat (2 * \<lceil>1 / (x / 2)\<rceil> + \<lfloor>x / 2\<rfloor>) < nat (2 * \<lceil>1 / x\<rceil> + \<lfloor>x\<rfloor>)"
    unfolding c1 c2 by linarith
  then show "(x / 2, x) \<in> measure (\<lambda>x. nat (2 * \<lceil>1 / x\<rceil> + \<lfloor>x\<rfloor>))"
    by simp
next
  fix x :: real assume a: "\<not> x \<le> 0" "\<not> 2 \<le> x" "x < 1"
  have fx: "\<lfloor>x\<rfloor> = 0" using a by (intro floor_unique) auto
  have "nat (2 * \<lceil>1 / (2 * x)\<rceil> + \<lfloor>2 * x\<rfloor>) < nat (2 * \<lceil>1 / x\<rceil> + \<lfloor>x\<rfloor>)"
  proof (cases "1 / 2 \<le> x")
    case True
    have c1: "\<lceil>1 / x\<rceil> = 2" using a True by (intro ceiling_unique) (auto simp: field_simps)
    have c2: "\<lceil>1 / (2 * x)\<rceil> = 1" using a True by (intro ceiling_unique) (auto simp: field_simps)
    have f2: "\<lfloor>2 * x\<rfloor> = 1" using a True by (intro floor_unique) auto
    show ?thesis unfolding c1 c2 f2 fx by simp
  next
    case False
    have f2: "\<lfloor>2 * x\<rfloor> = 0" using a False by (intro floor_unique) auto
    have "2 < 1 / x" using a False by (simp add: field_simps)
    then have g: "3 \<le> \<lceil>1 / x\<rceil>" by linarith
    have "1 / (2 * x) \<le> of_int \<lceil>1 / x\<rceil> / 2"
      using le_of_int_ceiling [of "1 / x"] a by (simp add: field_simps)
    also have "\<dots> \<le> of_int ((\<lceil>1 / x\<rceil> + 1) div 2)"
    proof -
      have "\<lceil>1 / x\<rceil> \<le> 2 * ((\<lceil>1 / x\<rceil> + 1) div 2)" by presburger
      then have "(of_int \<lceil>1 / x\<rceil> :: real) \<le> of_int (2 * ((\<lceil>1 / x\<rceil> + 1) div 2))"
        by (rule of_int_le_iff [THEN iffD2])
      then show ?thesis by simp
    qed
    finally have "\<lceil>1 / (2 * x)\<rceil> \<le> (\<lceil>1 / x\<rceil> + 1) div 2"
      by (simp add: ceiling_le_iff)
    then have "\<lceil>1 / (2 * x)\<rceil> < \<lceil>1 / x\<rceil>" using g by linarith
    moreover have "0 < \<lceil>1 / (2 * x)\<rceil>" using a by (simp add: field_simps)
    ultimately show ?thesis unfolding f2 fx by linarith
  qed
  then show "(2 * x, x) \<in> measure (\<lambda>x. nat (2 * \<lceil>1 / x\<rceil> + \<lfloor>x\<rfloor>))"
    by simp
qed

declare lg2.simps [simp del]

definition pow2 :: "int \<Rightarrow> real" where
  "pow2 e = (if 0 \<le> e then 2 ^ nat e else 1 / 2 ^ nat (- e))"

text \<open>Rounding to the nearest integer, a tie going to the even neighbour.\<close>

definition round_even :: "real \<Rightarrow> int" where
  "round_even y =
     (let f = \<lfloor>y\<rfloor>; d = y - of_int f
      in if d < 1 / 2 then f
         else if 1 / 2 < d then f + 1
         else if even f then f else f + 1)"

text \<open>The spacing of the doubles around \<open>x\<close> is \<open>2 ^ (lg2 \<bar>x\<bar> - 52)\<close>.\<close>

definition rn64 :: "real \<Rightarrow> double" where
  "rn64 x =
     (if x = 0 then 0
      else let u = pow2 (lg2 \<bar>x\<bar> - 52) in of_int (round_even (x / u)) * u)"

definition dadd :: "double \<Rightarrow> double \<Rightarrow> double" where
  "dadd x y = rn64 (x + y)"

definition dsub :: "double \<Rightarrow> double \<Rightarrow> double" where
  "dsub x y = rn64 (x - y)"

definition dmul :: "double \<Rightarrow> double \<Rightarrow> double" where
  "dmul x y = rn64 (x * y)"

text \<open>Division by a non-zero divisor; the callers below write out the case of a zero divisor.\<close>

definition ddiv :: "double \<Rightarrow> double \<Rightarrow> double" where
  "ddiv x y = rn64 (x / y)"


section \<open>Colour temperature: Kelvin to RGB and back\<close>

type_synonym ushort = "16 word"

text \<open>
  Converting a double to \<^verbatim>\<open>unsigned short\<close> truncates towards zero; the conversion is
  undefined in C when the truncated value is not representable. \<open>None\<close> is that case.
\<close>

definition double_to_ushort :: "double \<Rightarrow> ushort option" where
  "double_to_ushort x =
     (if - 1 < x \<and> x < 65536
      then Some (word_of_int (if 0 \<le> x then \<lfloor>x\<rfloor> else \<lceil>x\<rceil>))
      else None)"

definition clamp :: "double \<Rightarrow> double \<Rightarrow> ushort option" where
  "clamp x mx = (if x > mx then double_to_ushort mx else double_to_ushort x)"

text \<open>
  The fitted curve \<^verbatim>\<open>a + b * new_temp + c * log(new_temp)\<close>. The decimal constants of the
  source are doubles, hence rounded. \<^verbatim>\<open>log\<close> is the C library's; it is the parameter \<open>lg\<close>
  of the functions below. A non-positive \<open>new_temp\<close> makes \<^verbatim>\<open>log\<close> return an infinity or
  NaN; the only function that can reach that case is \<open>get_green\<close>, where the conversion of
  the result to \<^verbatim>\<open>unsigned short\<close> is then undefined.
\<close>

definition curve :: "(real \<Rightarrow> real) \<Rightarrow> real \<Rightarrow> real \<Rightarrow> real \<Rightarrow> double \<Rightarrow> double option" where
  "curve lg a b c new_temp =
     (if new_temp \<le> 0 then None
      else Some (dadd (dadd (rn64 a) (dmul (rn64 b) new_temp)) (dmul (rn64 c) (lg new_temp))))"

definition get_red :: "(real \<Rightarrow> real) \<Rightarrow> int \<Rightarrow> ushort option" where
  "get_red lg temp =
     (if temp \<le> 6500 then Some 255
      else do {
        let new_temp = dsub (ddiv (of_int temp) 100) 55;
        v \<leftarrow> curve lg 351.97690566805693 0.114206453784165 (- 40.25366309332127) new_temp;
        clamp v 255
      })"

definition get_green :: "(real \<Rightarrow> real) \<Rightarrow> int \<Rightarrow> ushort option" where
  "get_green lg temp =
     (if temp \<le> 6500
      then do {
        let new_temp = dsub (ddiv (of_int temp) 100) 2;
        v \<leftarrow> curve lg (- 155.25485562709179) (- 0.44596950469579133) 104.49216199393888 new_temp;
        clamp v 255
      }
      else do {
        let new_temp = dsub (ddiv (of_int temp) 100) 50;
        v \<leftarrow> curve lg 325.4494125711974 0.07943456536662342 (- 28.0852963507957) new_temp;
        clamp v 255
      })"

definition get_blue :: "(real \<Rightarrow> real) \<Rightarrow> int \<Rightarrow> ushort option" where
  "get_blue lg temp =
     (if temp \<le> 1900 then Some 0
      else if temp < 6500
      then do {
        let new_temp = dsub (ddiv (of_int temp) 100) 10;
        v \<leftarrow> curve lg (- 254.76935184120902) 0.8274096064007395 115.67994401066147 new_temp;
        clamp v 255
      }
      else Some 255)"

text \<open>
  The comparison \<^verbatim>\<open>(double) testB / testR > (double) B / R\<close>. A zero divisor gives
  an infinity, or NaN for \<^verbatim>\<open>0 / 0\<close>; every comparison with NaN is false.
\<close>

datatype quotient = Finite double | PosInf | NaN

definition udiv :: "ushort \<Rightarrow> ushort \<Rightarrow> quotient" where
  "udiv n d =
     (if d = 0 then (if n = 0 then NaN else PosInf)
      else Finite (ddiv (real (unat n)) (real (unat d))))"

fun quotient_gt :: "quotient \<Rightarrow> quotient \<Rightarrow> bool" where
  "quotient_gt (Finite x) (Finite y) = (x > y)"
| "quotient_gt PosInf (Finite y) = True"
| "quotient_gt _ _ = False"

text \<open>
  The \<^verbatim>\<open>do ... while\<close> loop of \<^verbatim>\<open>get_temp\<close>. The loop has no bound of its own, so
  it is a partial function: \<open>None\<close> is a run that never leaves the loop (or meets an undefined
  conversion). The last argument counts the executions of the loop body; the source has no
  such counter, it only serves to state how many iterations ran.
\<close>

partial_function (option) bisect ::
  "(real \<Rightarrow> real) \<Rightarrow> ushort \<Rightarrow> ushort \<Rightarrow> int \<Rightarrow> int \<Rightarrow> nat \<Rightarrow> (int \<times> nat) option" where
  "bisect lg R B min_temp max_temp iters =
     (let temperature = (max_temp + min_temp) sdiv 2 in
      do {
        testR \<leftarrow> get_red lg temperature;
        testB \<leftarrow> get_blue lg temperature;
        let up = quotient_gt (udiv testB testR) (udiv B R);
        if testR \<noteq> R \<or> testB \<noteq> B
        then bisect lg R B (if up then min_temp else temperature)
                           (if up then temperature else max_temp) (Suc iters)
        else Some (temperature, Suc iters)
      })"

text \<open>\<^verbatim>\<open>get_red(t) == R && get_blue(t) == B\<close>, the right operand evaluated only if needed.\<close>

definition same_pair :: "(real \<Rightarrow> real) \<Rightarrow> ushort \<Rightarrow> ushort \<Rightarrow> int \<Rightarrow> bool option" where
  "same_pair lg R B t =
     do {
       r \<leftarrow> get_red lg t;
       if r = R then do { b \<leftarrow> get_blue lg t; Some (b = B) } else Some False
     }"

definition min_temp_init :: "ushort \<Rightarrow> int" where
  "min_temp_init B = (if B = 255 then 6500 else 1000)"

definition max_temp_init :: "ushort \<Rightarrow> int" where
  "max_temp_init R = (if R = 255 then 6500 else 10000)"

text \<open>The rounding to a multiple of 50 that follows the loop.\<close>

definition fit50 :: "(real \<Rightarrow> real) \<Rightarrow> ushort \<Rightarrow> ushort \<Rightarrow> int \<Rightarrow> int option" where
  "fit50 lg R B temperature =
     (if temperature smod 50 \<noteq> 0
      then do {
        let tmp_temp = temperature - temperature smod 50;
        ok \<leftarrow> same_pair lg R B tmp_temp;
        if ok then Some tmp_temp
        else do {
          let tmp_temp = temperature + 50 - temperature smod 50;
          ok \<leftarrow> same_pair lg R B tmp_temp;
          if ok then Some tmp_temp else Some temperature
        }
      }
      else Some temperature)"

definition get_temp_iters :: "(real \<Rightarrow> real) \<Rightarrow> ushort \<Rightarrow> ushort \<Rightarrow> (int \<times> nat) option" where
  "get_temp_iters lg R B =
     do {
       (temperature, iters) \<leftarrow> bisect lg R B (min_temp_init B) (max_temp_init R) 0;
       t \<leftarrow> fit50 lg R B temperature;
       Some (t, iters)
     }"

definition get_temp :: "(real \<Rightarrow> real) \<Rightarrow> ushort \<Rightarrow> ushort \<Rightarrow> int option" where
  "get_temp lg R B = map_option fst (get_temp_iters lg R B)"


text \<open>
  What is asked of the C library's \<^verbatim>\<open>log\<close>: on the arguments that occur, between 1 and 100,
  it is the natural logarithm up to an absolute error of \<open>2 ^ - 20\<close>. (An implementation is
  accurate to about \<open>2 ^ - 52\<close>.)
\<close>

definition log_accurate :: "(real \<Rightarrow> real) \<Rightarrow> bool" where
  "log_accurate lg = (\<forall>x. 1 \<le> x \<and> x \<le> 100 \<longrightarrow> \<bar>lg x - ln x\<bar> \<le> 1 / 2 ^ 20)"

text \<open>The fitted curves over the reals, as functions of the temperature.\<close>

definition fit :: "real \<Rightarrow> real \<Rightarrow> real \<Rightarrow> real \<Rightarrow> real" where
  "fit a b c x = a + b * x + c * ln x"

definition red_fit :: "int \<Rightarrow> real" where
  "red_fit t = fit 351.97690566805693 0.114206453784165 (- 40.25366309332127) (of_int t / 100 - 55)"

definition green_low_fit :: "int \<Rightarrow> real" where
  "green_low_fit t =
     fit (- 155.25485562709179) (- 0.44596950469579133) 104.49216199393888 (of_int t / 100 - 2)"

definition green_high_fit :: "int \<Rightarrow> real" where
  "green_high_fit t =
     fit 325.4494125711974 0.07943456536662342 (- 28.0852963507957) (of_int t / 100 - 50)"

definition blue_fit :: "int \<Rightarrow> real" where
  "blue_fit t =
     fit (- 254.76935184120902) 0.8274096064007395 115.67994401066147 (of_int t / 100 - 10)"

text \<open>The channel value that \<open>clamp\<close> makes of a non-negative double.\<close>

definition channel :: "real \<Rightarrow> int" where
  "channel v = (if v > 255 then 255 else \<lfloor>v\<rfloor>)"

section \<open>Frame capture\<close>

text \<open>
  The capture code talks to the kernel through \<^verbatim>\<open>open\<close>, \<^verbatim>\<open>ioctl\<close>, \<^verbatim>\<open>mmap\<close>,
  \<^verbatim>\<open>munmap\<close> and \<^verbatim>\<open>close\<close>. The kernel's side is part of the \<open>world\<close>: what \<^verbatim>\<open>open\<close>
  and \<^verbatim>\<open>mmap\<close> will return, and the list of the results of the coming \<^verbatim>\<open>ioctl\<close> calls,
  consumed one per call. Every call the code issues is appended to \<open>calls\<close>. A run that asks
  for more \<^verbatim>\<open>ioctl\<close> results than the list holds has no result (\<open>None\<close>), as has a run
  that reads outside an array or divides by zero.
\<close>

datatype ioctl_req =
  VIDIOC_QUERYCAP | VIDIOC_S_PRIORITY | VIDIOC_S_FMT | VIDIOC_REQBUFS | VIDIOC_QUERYBUF
  | VIDIOC_STREAMON | VIDIOC_STREAMOFF | VIDIOC_QBUF | VIDIOC_DQBUF

type_synonym ptr = "64 word"

definition NULL :: ptr where
  "NULL = 0"

definition MAP_FAILED :: ptr where
  "MAP_FAILED = - 1"

text \<open>What a successful \<^verbatim>\<open>ioctl\<close> writes into the struct it was given.\<close>

datatype filled =
  Nothing
  | Caps "32 word"
  | Format "32 word" "32 word"
  | Buffer int int
  | Frame nat "8 word list"

datatype ioctl_result = Failed int | Ok filled

datatype call =
  Udev_lookup string
  | Open string
  | Ioctl int ioctl_req
  | Mmap int int int
  | Munmap ptr int
  | Close int
  | Free

text \<open>
  The fields of \<^verbatim>\<open>struct state\<close>. The width and the height are 32-bit: the driver writes
  them as \<^verbatim>\<open>__u32\<close>, the struct keeps them as \<^verbatim>\<open>int\<close> (\<open>sint\<close> reads such a word).
\<close>

record state =
  quit :: int
  width :: "32 word"
  height :: "32 word"
  device_fd :: int
  buf_size :: int
  brightness_values :: "double list option"
  buffer :: ptr

record world =
  st :: state
  udev_result :: "int + string"
  open_result :: int
  mmap_result :: ptr
  ioctl_results :: "ioctl_result list"
  frame :: "8 word list"
  calls :: "call list"

definition EPERM :: int where "EPERM = 1"
definition EINTR :: int where "EINTR = 4"
definition EINVAL :: int where "EINVAL = 22"

definition V4L2_CAP_VIDEO_CAPTURE :: "32 word" where
  "V4L2_CAP_VIDEO_CAPTURE = 0x00000001"

definition V4L2_CAP_STREAMING :: "32 word" where
  "V4L2_CAP_STREAMING = 0x04000000"

text \<open>\<^verbatim>\<open>struct state tmp = {0}\<close>: every field zero or null.\<close>

definition zero_state :: state where
  "zero_state = \<lparr>quit = 0, width = 0, height = 0, device_fd = 0, buf_size = 0,
                  brightness_values = None, buffer = NULL\<rparr>"

definition set_quit :: "int \<Rightarrow> world \<Rightarrow> world" where
  "set_quit q w = w\<lparr>st := (st w)\<lparr>quit := q\<rparr>\<rparr>"

definition log_call :: "call \<Rightarrow> world \<Rightarrow> world" where
  "log_call c w = w\<lparr>calls := calls w @ [c]\<rparr>"

text \<open>
  The loop of \<^verbatim>\<open>xioctl\<close>: the call is repeated while it fails with \<^verbatim>\<open>EINTR\<close>. The
  function returns the first other result, the results left, and the number of calls made.
\<close>

fun ioctl_retry :: "ioctl_result list \<Rightarrow> nat \<Rightarrow> (ioctl_result \<times> ioctl_result list \<times> nat) option" where
  "ioctl_retry [] n = None"
| "ioctl_retry (r # rs) n =
     (if r = Failed EINTR then ioctl_retry rs (Suc n) else Some (r, rs, Suc n))"

definition xioctl :: "ioctl_req \<Rightarrow> world \<Rightarrow> (int \<times> filled \<times> world) option" where
  "xioctl request w =
     do {
       (r, rest, n) \<leftarrow> ioctl_retry (ioctl_results w) 0;
       let w = w\<lparr>ioctl_results := rest,
                  calls := calls w @ replicate n (Ioctl (device_fd (st w)) request)\<rparr>;
       case r of
         Failed e \<Rightarrow> Some (- 1, Nothing, set_quit e w)
       | Ok f \<Rightarrow> Some (0, f, w)
     }"

definition open_device :: "string \<Rightarrow> world \<Rightarrow> world" where
  "open_device interface w =
     (let w = log_call (Open interface) w;
          w = w\<lparr>st := (st w)\<lparr>device_fd := open_result w\<rparr>\<rparr>
      in if device_fd (st w) = - 1 then set_quit 1 w else w)"

definition init :: "world \<Rightarrow> world option" where
  "init w =
     do {
       (r, f, w) \<leftarrow> xioctl VIDIOC_QUERYCAP w;
       if r = - 1 then Some w
       else let capabilities = (case f of Caps c \<Rightarrow> c | _ \<Rightarrow> 0) in
       if capabilities AND V4L2_CAP_VIDEO_CAPTURE = 0 then Some (set_quit 1 w)
       else if capabilities AND V4L2_CAP_STREAMING = 0 then Some (set_quit 1 w)
       else do {
         (r, _, w) \<leftarrow> xioctl VIDIOC_S_PRIORITY w;
         let w = (if r = - 1 then set_quit 0 w else w);
         (r, f, w) \<leftarrow> xioctl VIDIOC_S_FMT w;
         if r = - 1 then Some w
         else let (pw, ph) = (case f of Format a b \<Rightarrow> (a, b) | _ \<Rightarrow> (160, 120))
              in Some (w\<lparr>st := (st w)\<lparr>width := pw, height := ph\<rparr>\<rparr>)
       }
     }"

definition init_mmap :: "world \<Rightarrow> world option" where
  "init_mmap w =
     do {
       (r, _, w) \<leftarrow> xioctl VIDIOC_REQBUFS w;
       if r = - 1 then Some w
       else do {
         (r, f, w) \<leftarrow> xioctl VIDIOC_QUERYBUF w;
         if r = - 1 then Some w
         else let (len, offset) = (case f of Buffer l off \<Rightarrow> (l, off) | _ \<Rightarrow> (0, 0));
                  w = log_call (Mmap len (device_fd (st w)) offset) w;
                  w = w\<lparr>st := (st w)\<lparr>buffer := mmap_result w\<rparr>\<rparr>;
                  w = (if MAP_FAILED = buffer (st w) then set_quit 1 w else w)
              in Some (w\<lparr>st := (st w)\<lparr>buf_size := len\<rparr>\<rparr>)
       }
     }"

definition start_stream :: "world \<Rightarrow> world option" where
  "start_stream w = do { (r, _, w) \<leftarrow> xioctl VIDIOC_STREAMON w; Some w }"

definition stop_stream :: "world \<Rightarrow> world option" where
  "stop_stream w = do { (r, _, w) \<leftarrow> xioctl VIDIOC_STREAMOFF w; Some w }"

text \<open>
  \<^verbatim>\<open>compute_brightness\<close> adds the bytes at the even offsets below its argument (\<open>sz\<close>
  for the source's \<^verbatim>\<open>size\<close>) and divides by \<^verbatim>\<open>width * height\<close>. This is a product of two
  \<^verbatim>\<open>int\<close>, itself an \<^verbatim>\<open>int\<close>: the low 32 bits of the product, read as a signed number
  (C leaves the overflow undefined; this is what the compiled code computes), then converted to
  \<^verbatim>\<open>double\<close>.
\<close>

fun sum_even :: "8 word list \<Rightarrow> double \<Rightarrow> double" where
  "sum_even (x # y # xs) brightness = sum_even xs (dadd brightness (real (unat x)))"
| "sum_even [x] brightness = dadd brightness (real (unat x))"
| "sum_even [] brightness = brightness"

definition compute_brightness :: "nat \<Rightarrow> world \<Rightarrow> double option" where
  "compute_brightness sz w =
     (let area = sint (width (st w) * height (st w)) in
      if length (frame w) < sz \<or> area = 0 then None
      else Some (ddiv (sum_even (take sz (frame w)) 0) (of_int area)))"

definition capture_frame :: "int \<Rightarrow> world \<Rightarrow> world option" where
  "capture_frame i w =
     do {
       (r, _, w) \<leftarrow> xioctl VIDIOC_QBUF w;
       if r = - 1 then stop_stream w
       else do {
         (r, f, w) \<leftarrow> xioctl VIDIOC_DQBUF w;
         if r = - 1 then Some w
         else do {
           let (bytesused, w) = (case f of Frame n bs \<Rightarrow> (n, w\<lparr>frame := bs\<rparr>) | _ \<Rightarrow> (0, w));
           b \<leftarrow> compute_brightness bytesused w;
           case brightness_values (st w) of
             None \<Rightarrow> None
           | Some vs \<Rightarrow>
               if 0 \<le> i \<and> nat i < length vs
               then Some (w\<lparr>st := (st w)\<lparr>brightness_values := Some (vs[nat i := b])\<rparr>\<rparr>)
               else None
         }
       }
     }"

text \<open>
  The scan of \<^verbatim>\<open>compute_avg_brightness\<close> for the lowest and the highest sample
  (\<open>total'\<close> is the source's \<^verbatim>\<open>total\<close>).
\<close>

function avg_loop :: "double list \<Rightarrow> int \<Rightarrow> int \<Rightarrow> int \<Rightarrow> int \<Rightarrow> double \<Rightarrow> int \<times> int \<times> double" where
  "avg_loop vs num_captures i lowest highest total' =
     (if i < num_captures
      then if vs ! nat i < vs ! nat lowest
           then avg_loop vs num_captures (i + 1) i highest (dadd total' (vs ! nat i))
           else if vs ! nat i > vs ! nat highest
           then avg_loop vs num_captures (i + 1) lowest i (dadd total' (vs ! nat i))
           else avg_loop vs num_captures (i + 1) lowest highest (dadd total' (vs ! nat i))
      else (lowest, highest, total'))"
  by pat_completeness auto
termination
  by (relation "measure (\<lambda>(vs, num_captures, i, lowest, highest, total'). nat (num_captures - i))") auto

declare avg_loop.simps [simp del]

text \<open>
  The array has \<open>num_captures\<close> entries; a scan that would read past it has no result. The
  last division is \<^verbatim>\<open>0.0 / 0\<close> when \<open>num_captures\<close> is 0: NaN.
\<close>

definition compute_avg_brightness :: "int \<Rightarrow> world \<Rightarrow> double option" where
  "compute_avg_brightness num_captures w =
     (let vs = (case brightness_values (st w) of None \<Rightarrow> [] | Some vs \<Rightarrow> vs) in
      if int (length vs) < num_captures then None
      else
        let (lowest, highest, total) = avg_loop vs num_captures 0 0 0 0;
            trim = (total \<noteq> 0 \<and> num_captures > 2);
            total = (if trim then dsub total (dadd (vs ! nat highest) (vs ! nat lowest)) else total);
            num_captures = (if trim then num_captures - 2 else num_captures);
            total = ddiv total 255
        in if num_captures = 0 then None else Some (ddiv total (of_int num_captures)))"

definition free_all :: "world \<Rightarrow> world" where
  "free_all w =
     (let w = (if device_fd (st w) \<noteq> - 1 then log_call (Close (device_fd (st w))) w else w);
          w = (if buffer (st w) \<noteq> NULL
               then log_call (Munmap (buffer (st w)) (buf_size (st w))) w else w);
          w = (if brightness_values (st w) \<noteq> None then log_call Free w else w)
      in w)"

text \<open>\<^verbatim>\<open>for (int i = 0; i < num_captures && !state->quit; i++) capture_frame(i);\<close>\<close>

function capture_loop :: "int \<Rightarrow> int \<Rightarrow> world \<Rightarrow> world option" where
  "capture_loop i num_captures w =
     (if i < num_captures \<and> quit (st w) = 0
      then do { w \<leftarrow> capture_frame i w; capture_loop (i + 1) num_captures w }
      else Some w)"
  by pat_completeness auto
termination
  by (relation "measure (\<lambda>(i, num_captures, w). nat (num_captures - i))") auto

declare capture_loop.simps [simp del]

text \<open>
  The part of \<^verbatim>\<open>capture_frames\<close> from \<^verbatim>\<open>init\<close> to the label \<^verbatim>\<open>end\<close>; each
  \<^verbatim>\<open>goto end\<close> leaves with the average still \<open>- 1\<close>. \<^verbatim>\<open>calloc\<close> is taken to succeed.
\<close>

definition capture_body :: "int \<Rightarrow> world \<Rightarrow> (double \<times> world) option" where
  "capture_body num_captures w =
     do {
       w \<leftarrow> init w;
       if quit (st w) \<noteq> 0 then Some (- 1, w)
       else do {
         w \<leftarrow> init_mmap w;
         if quit (st w) \<noteq> 0 then Some (- 1, w)
         else do {
           let w = w\<lparr>st := (st w)\<lparr>brightness_values := Some (replicate (nat num_captures) 0)\<rparr>\<rparr>;
           w \<leftarrow> start_stream w;
           if quit (st w) \<noteq> 0 then Some (- 1, w)
           else do {
             w \<leftarrow> capture_loop 0 num_captures w;
             w \<leftarrow> stop_stream w;
             if quit (st w) = 0
             then do { avg \<leftarrow> compute_avg_brightness num_captures w; Some (avg, w) }
             else Some (- 1, w)
           }
         }
       }
     }"

text \<open>\<open>capture_frames\<close> returns the average, the value of \<^verbatim>\<open>*err\<close>, and the world.\<close>

definition capture_frames :: "string \<Rightarrow> int \<Rightarrow> int \<Rightarrow> world \<Rightarrow> (double \<times> int \<times> world) option" where
  "capture_frames interface num_captures err w =
     do {
       let w = w\<lparr>st := zero_state\<rparr>;
       let w = open_device interface w;
       (avg_brightness, w) \<leftarrow> (if quit (st w) = 0 then capture_body num_captures w else Some (- 1, w));
       let err = (if quit (st w) \<noteq> 0 then quit (st w) else err);
       Some (avg_brightness, err, free_all w)
     }"

text \<open>
  The bus method. Whether the caller is authorized, and what the message holds, come with
  the request: \<open>params\<close> is \<open>Inl r\<close> when reading the message fails with \<open>r < 0\<close>. The udev
  lookup is outside this file; the world says what it finds (\<open>Inl e\<close>: the error it sets).
\<close>

record request =
  authorized :: bool
  params :: "int + string \<times> int"

datatype outcome =
  Errno_error int
  | Failed_error string int
  | Unset_error int
  | Reply double

definition method_captureframes :: "request \<Rightarrow> world \<Rightarrow> (outcome \<times> world) option" where
  "method_captureframes m w =
     (if \<not> authorized m then Some (Errno_error EPERM, w)
      else case params m of
        Inl r \<Rightarrow> Some (Unset_error r, w)
      | Inr (video_interface, num_captures) \<Rightarrow>
          if num_captures \<le> 0 \<or> num_captures > 20
          then Some (Failed_error ''Number of captures should be between 1 and 20.'' (- EINVAL), w)
          else
            let w = log_call (Udev_lookup video_interface) w in
            case udev_result w of
              Inl e \<Rightarrow> Some (Errno_error e, w)
            | Inr devnode \<Rightarrow>
                do {
                  (val, error, w) \<leftarrow> capture_frames devnode num_captures 0 w;
                  if error \<noteq> 0 then Some (Errno_error error, w) else Some (Reply val, w)
                })"


subsection \<open>Some worlds\<close>

text \<open>
  Concrete requests and worlds, used to run the definitions: a machine with no video device;
  a device that opens and answers every setup \<^verbatim>\<open>ioctl\<close>, but whose buffer cannot be mapped.
\<close>

definition video0 :: string where
  "video0 = ''/dev/video0''"

definition capture_request :: "int \<Rightarrow> request" where
  "capture_request n = \<lparr>authorized = True, params = Inr (video0, n)\<rparr>"

definition setup_ok :: "ioctl_result list" where
  "setup_ok = [Ok (Caps (V4L2_CAP_VIDEO_CAPTURE OR V4L2_CAP_STREAMING)), Ok Nothing,
               Ok (Format 160 120), Ok Nothing, Ok (Buffer 38400 0)]"

definition world_no_device :: world where
  "world_no_device = \<lparr>st = zero_state, udev_result = Inl 19, open_result = - 1,
     mmap_result = MAP_FAILED, ioctl_results = [], frame = [], calls = []\<rparr>"

definition world_mmap_fails :: world where
  "world_mmap_fails = \<lparr>st = zero_state, udev_result = Inr video0, open_result = 3,
     mmap_result = MAP_FAILED, ioctl_results = setup_ok, frame = [], calls = []\<rparr>"


text \<open>
  The plain mean of the samples divided by 255, in double arithmetic: the samples are added
  in order, starting from 0, the sum is divided by their number and the mean by 255. There is
  no mean of no sample (\<^verbatim>\<open>0.0 / 0\<close> is NaN).
\<close>

definition mean_div_255 :: "double list \<Rightarrow> double option" where
  "mean_div_255 vs =
     (if vs = [] then None
      else Some (ddiv (ddiv (foldl dadd 0 vs) (real (length vs))) 255))"

definition world_with_samples :: "double list \<Rightarrow> world" where
  "world_with_samples vs = world_no_device\<lparr>st := zero_state\<lparr>brightness_values := Some vs\<rparr>\<rparr>"

text \<open>The double nearest to 0.1, the brightness of a frame whose bytes add up to 1920 at 160 by 120.\<close>

definition tenth :: double where
  "tenth = 3602879701896397 / 36028797018963968"












text \<open>
  What \<^verbatim>\<open>xioctl\<close> will return, call after call: the coming results without the failures
  with \<^verbatim>\<open>EINTR\<close>, after which it repeats the call. And the value of \<^verbatim>\<open>state->quit\<close>
  after calls with the results \<open>rs\<close>, when it was \<open>e\<close> before: every failure overwrites it.
\<close>

definition answers :: "world \<Rightarrow> ioctl_result list" where
  "answers w = filter (\<lambda>r. r \<noteq> Failed EINTR) (ioctl_results w)"


section \<open>The event loop\<close>

text \<open>
  The sources polled by \<^verbatim>\<open>main_poll\<close>, in the order of \<^verbatim>\<open>enum poll_idx\<close> (with
  \<^verbatim>\<open>GAMMA_PRESENT\<close> defined); \<open>poll_order\<close> lists the indices \<open>0, \<dots>, POLL_SIZE - 1\<close>.
\<close>

datatype poll_idx = BUS | SIGNAL | BRIGHT_SMOOTH | GAMMA_SMOOTH | WEBCAM_MON | ALS_MON

definition poll_order :: "poll_idx list" where
  "poll_order = [BUS, SIGNAL, BRIGHT_SMOOTH, GAMMA_SMOOTH, WEBCAM_MON, ALS_MON]"

definition LEAVE_W_ERR :: int where "LEAVE_W_ERR = - 1"
definition SIGNAL_RCV :: int where "SIGNAL_RCV = 1"
definition EXIT_SUCCESS :: int where "EXIT_SUCCESS = 0"
definition EXIT_FAILURE :: int where "EXIT_FAILURE = 1"

text \<open>
  One return of \<^verbatim>\<open>poll\<close>: its value, \<^verbatim>\<open>errno\<close>, and for each source whether
  \<^verbatim>\<open>POLLIN\<close> is set in its \<^verbatim>\<open>revents\<close>.
\<close>

record wakeup =
  poll_ret :: int
  poll_errno :: int
  revents :: "poll_idx \<Rightarrow> bool"

text \<open>
  The daemon: the flag \<^verbatim>\<open>quit\<close> of \<^verbatim>\<open>main.c\<close> (\<open>main_quit\<close>; the capture state has a field
  \<open>quit\<close> of its own), the handlers run so far, and what the outside will answer: the three
  bus calls of start-up, the successive results of \<^verbatim>\<open>sd_bus_process\<close>, and the successive
  returns of \<^verbatim>\<open>poll\<close>.
\<close>

record daemon =
  main_quit :: int
  handled :: "poll_idx list"
  connect_result :: int
  vtable_result :: int
  name_result :: int
  process_results :: "int list"
  wakeups :: "wakeup list"

text \<open>\<^verbatim>\<open>bus_cb\<close>: process the bus until nothing is left; a negative result sets the flag.\<close>

fun bus_process :: "int list \<Rightarrow> int \<Rightarrow> (int \<times> int list) option" where
  "bus_process [] q = None"
| "bus_process (r # rs) q =
     (let q = (if r < 0 then LEAVE_W_ERR else q)
      in if r > 0 then bus_process rs q else Some (q, rs))"

definition bus_cb :: "daemon \<Rightarrow> daemon option" where
  "bus_cb d =
     do {
       (q, rs) \<leftarrow> bus_process (process_results d) (main_quit d);
       Some (d\<lparr>main_quit := q, process_results := rs\<rparr>)
     }"

definition signal_cb :: "daemon \<Rightarrow> daemon" where
  "signal_cb d = d\<lparr>main_quit := SIGNAL_RCV\<rparr>"

text \<open>
  The \<^verbatim>\<open>switch\<close> of \<^verbatim>\<open>main_poll\<close>. The smoothing callbacks and the hotplug monitors are
  outside \<^verbatim>\<open>main.c\<close> and cannot reach its static flag; only their invocation is recorded.
\<close>

definition handle :: "poll_idx \<Rightarrow> daemon \<Rightarrow> daemon option" where
  "handle i d =
     (let d = d\<lparr>handled := handled d @ [i]\<rparr>
      in case i of
           BUS \<Rightarrow> bus_cb d
         | SIGNAL \<Rightarrow> Some (signal_cb d)
         | BRIGHT_SMOOTH \<Rightarrow> Some d
         | GAMMA_SMOOTH \<Rightarrow> Some d
         | WEBCAM_MON \<Rightarrow> Some d
         | ALS_MON \<Rightarrow> Some d)"

text \<open>\<^verbatim>\<open>for (int i = 0; i < POLL_SIZE && !quit && r > 0; i++)\<close>, over the indices left.\<close>

fun scan :: "poll_idx list \<Rightarrow> (poll_idx \<Rightarrow> bool) \<Rightarrow> int \<Rightarrow> daemon \<Rightarrow> daemon option" where
  "scan [] ready r d = Some d"
| "scan (i # is) ready r d =
     (if main_quit d = 0 \<and> r > 0
      then if ready i then do { d \<leftarrow> handle i d; scan is ready (r - 1) d }
           else scan is ready r d
      else Some d)"

text \<open>\<^verbatim>\<open>while (!quit)\<close>: a daemon still running when the returns of \<^verbatim>\<open>poll\<close> run out has no result.\<close>

fun main_poll :: "wakeup list \<Rightarrow> daemon \<Rightarrow> daemon option" where
  "main_poll [] d = (if main_quit d \<noteq> 0 then Some d else None)"
| "main_poll (w # ws) d =
     (if main_quit d \<noteq> 0 then Some d
      else do {
        let d = (if poll_ret w = - 1 \<and> poll_errno w \<noteq> EINTR
                 then d\<lparr>main_quit := LEAVE_W_ERR\<rparr> else d);
        d \<leftarrow> scan poll_order (revents w) (poll_ret w) d;
        main_poll ws d
      })"

text \<open>\<^verbatim>\<open>main\<close> returns the exit status. The flag is a static variable: zero at start.\<close>

definition main :: "daemon \<Rightarrow> (int \<times> daemon) option" where
  "main d =
     do {
       let d = d\<lparr>main_quit := 0, handled := []\<rparr>;
       d \<leftarrow> (if connect_result d < 0 then Some d
             else if vtable_result d < 0 then Some d
             else if name_result d < 0 then Some d
             else do { d \<leftarrow> bus_cb d; main_poll (wakeups d) d });
       Some (if main_quit d = LEAVE_W_ERR then EXIT_FAILURE else EXIT_SUCCESS, d)
     }"

subsection \<open>Some daemons\<close>

definition no_wakeup :: "poll_idx \<Rightarrow> bool" where
  "no_wakeup i = False"

definition daemon_idle :: daemon where
  "daemon_idle = \<lparr>main_quit = 0, handled = [], connect_result = 0, vtable_result = 0,
     name_result = 0, process_results = [], wakeups = []\<rparr>"

text \<open>
  Start-up failures (the bus refuses the connection; the object cannot be installed; the name
  is taken), a \<^verbatim>\<open>poll\<close> that fails with \<^verbatim>\<open>EBADF\<close>, and a \<^verbatim>\<open>SIGTERM\<close> that arrives together
  with a bus message and a webcam hotplug event.
\<close>

definition daemon_no_bus :: daemon where
  "daemon_no_bus = daemon_idle\<lparr>connect_result := - 111\<rparr>"

definition daemon_no_vtable :: daemon where
  "daemon_no_vtable = daemon_idle\<lparr>vtable_result := - 17\<rparr>"

definition daemon_no_name :: daemon where
  "daemon_no_name = daemon_idle\<lparr>name_result := - 17\<rparr>"

definition daemon_poll_fails :: daemon where
  "daemon_poll_fails = daemon_idle\<lparr>process_results := [0],
     wakeups := [\<lparr>poll_ret = - 1, poll_errno = 9, revents = no_wakeup\<rparr>]\<rparr>"

definition ready_sigterm :: "poll_idx \<Rightarrow> bool" where
  "ready_sigterm i = (i = BUS \<or> i = SIGNAL \<or> i = WEBCAM_MON)"


definition daemon_sigterm :: daemon where
  "daemon_sigterm = daemon_idle\<lparr>process_results := [0, 1, 0],
     wakeups := [\<lparr>poll_ret = 3, poll_errno = 0, revents = ready_sigterm\<rparr>]\<rparr>"





chapter \<open>Properties\<close>

section \<open>Rounding to binary64\<close>

lemma pow2_powi: "pow2 e = 2 powi e"
  by (simp add: pow2_def power_int_def field_simps)

lemma pow2_pos: "0 < pow2 e"
  by (simp add: pow2_powi)

lemma pow2_add: "pow2 (a + b) = pow2 a * pow2 b"
  by (simp add: pow2_powi power_int_add)

lemma pow2_Suc: "pow2 (e + 1) = 2 * pow2 e"
  by (simp add: pow2_add) (simp add: pow2_def)

lemma pow2_pred: "pow2 (e - 1) = pow2 e / 2"
  using pow2_Suc [of "e - 1"] by simp

lemma pow2_mono: "a \<le> b \<Longrightarrow> pow2 a \<le> pow2 b"
  by (simp add: pow2_powi power_int_increasing)

lemma pow2_less_cancel: "pow2 a < pow2 b \<Longrightarrow> a < b"
  using pow2_mono [of b a] by (cases "a < b") auto

lemma pow2_nat: "pow2 (int n) = 2 ^ n"
  by (simp add: pow2_def)

lemma lg2_bounds: "0 < x \<Longrightarrow> pow2 (lg2 x) \<le> x \<and> x < 2 * pow2 (lg2 x)"
proof (induction x rule: lg2.induct)
  case (1 x)
  show ?case
  proof (cases "2 \<le> x")
    case True
    with "1.prems" have e: "lg2 x = lg2 (x / 2) + 1" by (subst lg2.simps) simp
    from "1.IH"(1) [of] "1.prems" True have "pow2 (lg2 (x / 2)) \<le> x / 2 \<and> x / 2 < 2 * pow2 (lg2 (x / 2))"
      by simp
    then show ?thesis unfolding e pow2_Suc by simp
  next
    case f: False
    show ?thesis
    proof (cases "x < 1")
      case True
      with "1.prems" f have e: "lg2 x = lg2 (2 * x) - 1" by (subst lg2.simps) simp
      from "1.IH"(2) "1.prems" f True have "pow2 (lg2 (2 * x)) \<le> 2 * x \<and> 2 * x < 2 * pow2 (lg2 (2 * x))"
        by simp
      then show ?thesis unfolding e pow2_pred by simp
    next
      case False
      with "1.prems" f have "lg2 x = 0" by (subst lg2.simps) simp
      with False f show ?thesis by (simp add: pow2_def)
    qed
  qed
qed

lemma lg2_unique:
  assumes "pow2 e \<le> x" and "x < 2 * pow2 e"
  shows "lg2 x = e"
proof -
  have x: "0 < x" using assms(1) pow2_pos [of e] by linarith
  from lg2_bounds [OF x] have b: "pow2 (lg2 x) \<le> x" "x < pow2 (lg2 x + 1)"
    by (simp_all add: pow2_Suc)
  from assms have c: "x < pow2 (e + 1)" by (simp add: pow2_Suc)
  from b(1) c have "lg2 x < e + 1" by (intro pow2_less_cancel) linarith
  moreover from assms(1) b(2) have "e < lg2 x + 1" by (intro pow2_less_cancel) linarith
  ultimately show ?thesis by simp
qed

lemma lg2_half: "0 < x \<Longrightarrow> lg2 (x / 2) = lg2 x - 1"
  using lg2_bounds [of x] by (intro lg2_unique) (simp_all add: pow2_pred)

lemma round_even_of_int: "round_even (of_int k) = k"
  by (simp add: round_even_def)

lemma round_even_err: "\<bar>of_int (round_even y) - y\<bar> \<le> 1 / 2"
proof -
  have "of_int \<lfloor>y\<rfloor> \<le> y" "y < of_int \<lfloor>y\<rfloor> + 1" by linarith+
  then show ?thesis by (auto simp: round_even_def Let_def)
qed

lemma rn64_zero: "rn64 0 = 0"
  by (simp add: rn64_def)

lemma rn64_err_ulp:
  assumes "x \<noteq> 0"
  shows "\<bar>rn64 x - x\<bar> \<le> pow2 (lg2 \<bar>x\<bar> - 52) / 2"
proof -
  let ?u = "pow2 (lg2 \<bar>x\<bar> - 52)"
  have u: "0 < ?u" by (rule pow2_pos)
  have "\<bar>of_int (round_even (x / ?u)) - x / ?u\<bar> \<le> 1 / 2" by (rule round_even_err)
  then have "\<bar>of_int (round_even (x / ?u)) - x / ?u\<bar> * ?u \<le> 1 / 2 * ?u"
    using u by (intro mult_right_mono) simp_all
  moreover have "\<bar>of_int (round_even (x / ?u)) - x / ?u\<bar> * ?u
      = \<bar>(of_int (round_even (x / ?u)) - x / ?u) * ?u\<bar>"
    using u by (simp add: abs_mult)
  moreover have "(of_int (round_even (x / ?u)) - x / ?u) * ?u = of_int (round_even (x / ?u)) * ?u - x"
    using u by (simp add: field_simps)
  ultimately show ?thesis using assms by (simp add: rn64_def Let_def)
qed

text \<open>The relative error of a rounding is at most \<open>2 ^ - 53\<close>.\<close>

lemma rn64_err: "\<bar>rn64 x - x\<bar> \<le> \<bar>x\<bar> / 2 ^ 53"
proof (cases "x = 0")
  case True
  then show ?thesis by (simp add: rn64_zero)
next
  case False
  then have "0 < \<bar>x\<bar>" by simp
  from lg2_bounds [OF this] have "pow2 (lg2 \<bar>x\<bar>) \<le> \<bar>x\<bar>" by simp
  moreover have "pow2 (lg2 \<bar>x\<bar> - 52) = pow2 (lg2 \<bar>x\<bar>) / 2 ^ 52"
    using pow2_add [of "lg2 \<bar>x\<bar> - 52" 52] by (simp add: pow2_def)
  ultimately have "pow2 (lg2 \<bar>x\<bar> - 52) / 2 \<le> \<bar>x\<bar> / 2 ^ 53"
    by (simp add: field_simps)
  with rn64_err_ulp [OF False] show ?thesis by linarith
qed

text \<open>A number with at most 53 significant bits is a double: rounding leaves it alone.\<close>

lemma rn64_exact_less:
  assumes "x = of_int m * pow2 e" and "\<bar>m\<bar> < 2 ^ 53"
  shows "rn64 x = x"
proof (cases "x = 0")
  case True
  then show ?thesis by (simp add: rn64_zero)
next
  case False
  define E where "E = lg2 \<bar>x\<bar> - 52"
  define P where "P = pow2 E"
  have P: "0 < P" unfolding P_def by (rule pow2_pos)
  have ax: "\<bar>x\<bar> = of_int \<bar>m\<bar> * pow2 e"
    using pow2_pos [of e] by (simp add: assms(1) abs_mult)
  have "(of_int \<bar>m\<bar> :: real) < of_int (2 ^ 53)"
    using assms(2) by (simp only: of_int_less_iff)
  then have "of_int \<bar>m\<bar> < (2 ^ 53 :: real)" by simp
  then have "\<bar>x\<bar> < 2 ^ 53 * pow2 e"
    unfolding ax using pow2_pos [of e] by (intro mult_strict_right_mono) simp_all
  also have "2 ^ 53 * pow2 e = pow2 (53 + e)"
    using pow2_add [of 53 e] by (simp add: pow2_nat [of 53, simplified])
  finally have up: "\<bar>x\<bar> < pow2 (53 + e)" .
  have "0 < \<bar>x\<bar>" using False by simp
  from lg2_bounds [OF this] have lo: "pow2 (lg2 \<bar>x\<bar>) \<le> \<bar>x\<bar>" by simp
  from lo up have "lg2 \<bar>x\<bar> < 53 + e" by (intro pow2_less_cancel) linarith
  then have le: "0 \<le> e - E" by (simp add: E_def)
  define K :: int where "K = 2 ^ nat (e - E)"
  have "pow2 e = pow2 (e - E) * P"
    unfolding P_def using pow2_add [of "e - E" E] by simp
  also have "pow2 (e - E) = of_int K"
    using le by (simp add: pow2_def K_def)
  finally have pe: "pow2 e = of_int K * P" .
  have "x / P = of_int m * (of_int K * P) / P"
    by (simp only: assms(1) pe)
  also have "\<dots> = of_int (m * K)"
    using P by simp
  finally have "round_even (x / P) = m * K"
    by (simp only: round_even_of_int)
  then have "of_int (round_even (x / P)) * P = x"
    by (simp add: assms(1) pe)
  then show ?thesis using False by (simp add: rn64_def Let_def P_def E_def)
qed

lemma rn64_exact:
  assumes "x = of_int m * pow2 e" and "\<bar>m\<bar> \<le> 2 ^ 53"
  shows "rn64 x = x"
proof (cases "\<bar>m\<bar> < 2 ^ 53")
  case True
  with assms(1) show ?thesis by (rule rn64_exact_less)
next
  case False
  with assms(2) have "m = 2 ^ 53 \<or> m = - (2 ^ 53)" by linarith
  then have "x = of_int (if 0 < m then 1 else - 1) * pow2 (53 + e)"
    using pow2_add [of 53 e] by (auto simp: assms(1) pow2_nat [of 53, simplified])
  then show ?thesis by (rule rn64_exact_less) simp
qed

lemma rn64_of_int: "\<bar>k\<bar> \<le> 2 ^ 53 \<Longrightarrow> rn64 (of_int k) = of_int k"
  using rn64_exact [of "of_int k" k 0] by (simp add: pow2_def)


lemma round_even_bound:
  assumes "\<bar>y\<bar> \<le> of_int n"
  shows "\<bar>round_even y\<bar> \<le> n"
proof -
  have "\<bar>of_int (round_even y) - y\<bar> \<le> 1 / 2" by (rule round_even_err)
  with assms have "\<bar>of_int (round_even y) :: real\<bar> < of_int n + 1" by linarith
  then have "(of_int \<bar>round_even y\<bar> :: real) < of_int (n + 1)" by simp
  then have "\<bar>round_even y\<bar> < n + 1" by (simp only: of_int_less_iff)
  then show ?thesis by simp
qed

lemma rn64_repr: "\<exists>m e. rn64 x = of_int m * pow2 e \<and> \<bar>m\<bar> \<le> 2 ^ 53"
proof (cases "x = 0")
  case True
  then show ?thesis by (intro exI [of _ 0]) (simp add: rn64_zero)
next
  case False
  define E where "E = lg2 \<bar>x\<bar> - 52"
  have P: "0 < pow2 E" by (rule pow2_pos)
  have "0 < \<bar>x\<bar>" using False by simp
  from lg2_bounds [OF this] have "\<bar>x\<bar> < 2 * pow2 (lg2 \<bar>x\<bar>)" by simp
  also have "pow2 (lg2 \<bar>x\<bar>) = 2 ^ 52 * pow2 E"
    using pow2_add [of 52 E] by (simp add: E_def pow2_nat [of 52, simplified])
  finally have "\<bar>x\<bar> / pow2 E < 2 ^ 53" using P by (simp add: field_simps)
  then have "\<bar>x / pow2 E\<bar> \<le> of_int (2 ^ 53)" using P by simp
  then have "\<bar>round_even (x / pow2 E)\<bar> \<le> 2 ^ 53" by (rule round_even_bound)
  moreover have "rn64 x = of_int (round_even (x / pow2 E)) * pow2 E"
    using False by (simp add: rn64_def Let_def E_def)
  ultimately show ?thesis by blast
qed

lemma rn64_idem: "rn64 (rn64 x) = rn64 x"
  using rn64_repr [of x] rn64_exact by blast

lemma rn64_half: "rn64 (x / 2) = rn64 x / 2"
proof (cases "x = 0")
  case True
  then show ?thesis by (simp add: rn64_zero)
next
  case False
  define U where "U = pow2 (lg2 \<bar>x\<bar> - 52)"
  have U: "0 < U" unfolding U_def by (rule pow2_pos)
  have "lg2 \<bar>x / 2\<bar> = lg2 \<bar>x\<bar> - 1" using False by (simp add: lg2_half)
  then have "lg2 \<bar>x / 2\<bar> - 52 = lg2 \<bar>x\<bar> - 52 - 1" by linarith
  then have "pow2 (lg2 \<bar>x / 2\<bar> - 52) = pow2 (lg2 \<bar>x\<bar> - 52 - 1)"
    by (rule arg_cong)
  also have "\<dots> = U / 2" unfolding U_def by (rule pow2_pred)
  finally have h: "pow2 (lg2 \<bar>x / 2\<bar> - 52) = U / 2" .
  have q: "x / 2 / (U / 2) = x / U" using U by simp
  have "rn64 (x / 2) = of_int (round_even (x / 2 / (U / 2))) * (U / 2)"
    using False unfolding rn64_def Let_def h by simp
  also have "\<dots> = of_int (round_even (x / U)) * U / 2" unfolding q by simp
  also have "of_int (round_even (x / U)) * U = rn64 x"
    using False by (simp add: rn64_def Let_def U_def)
  finally show ?thesis .
qed

lemma rn64_pos: "0 < x \<Longrightarrow> 0 < rn64 x"
proof -
  assume x: "0 < x"
  have "\<bar>rn64 x - x\<bar> \<le> \<bar>x\<bar> / 2 ^ 53" by (rule rn64_err)
  moreover have "x / 2 ^ 53 < x" using x by (simp add: field_simps)
  ultimately show ?thesis using x by (simp add: abs_if split: if_splits)
qed

text \<open>Rounding adds a relative error of at most \<open>2 ^ - 53\<close> to an approximation.\<close>

lemma rn64_approx:
  assumes "\<bar>a - b\<bar> \<le> eps * b" and "0 \<le> b" and "eps \<le> 1"
  shows "\<bar>rn64 a - b\<bar> \<le> (eps + 2 / 2 ^ 53) * b"
proof -
  have "\<bar>a\<bar> \<le> b + eps * b" using assms(1,2) by linarith
  also have "\<dots> \<le> 2 * b" using mult_right_mono [OF assms(3,2)] by simp
  finally have "\<bar>a\<bar> / 2 ^ 53 \<le> 2 * b / 2 ^ 53" by (simp add: divide_right_mono)
  moreover have "\<bar>rn64 a - a\<bar> \<le> \<bar>a\<bar> / 2 ^ 53" by (rule rn64_err)
  ultimately have "\<bar>rn64 a - b\<bar> \<le> eps * b + 2 * b / 2 ^ 53" using assms(1) by linarith
  then show ?thesis by (simp add: algebra_simps)
qed


section \<open>Bounds on the exponential and the logarithm\<close>

lemma exp_lower_sum:
  fixes x :: real
  assumes "0 \<le> x"
  shows "(\<Sum>m<n. x ^ m / fact m) \<le> exp x"
proof -
  from Maclaurin_exp_le [of x n] obtain t where
    t: "exp x = (\<Sum>m<n. x ^ m / fact m) + exp t / fact n * x ^ n" by blast
  have "0 \<le> exp t / fact n * x ^ n" using assms by simp
  with t show ?thesis by linarith
qed

lemma exp_upper_sum:
  fixes x :: real
  assumes "0 \<le> x" and "x \<le> 1"
  shows "exp x \<le> (\<Sum>m<n. x ^ m / fact m) + 3 * x ^ n / fact n"
proof -
  from Maclaurin_exp_le [of x n] obtain t where
    t: "\<bar>t\<bar> \<le> \<bar>x\<bar>" "exp x = (\<Sum>m<n. x ^ m / fact m) + exp t / fact n * x ^ n" by blast
  have "t \<le> 1" using t(1) assms by linarith
  then have "exp t \<le> exp 1" by simp
  also have "\<dots> \<le> 3" by (rule exp_le)
  finally have "exp t * (x ^ n / fact n) \<le> 3 * (x ^ n / fact n)"
    using assms by (intro mult_right_mono) simp_all
  with t(2) show ?thesis by (simp add: field_simps)
qed

lemma ln_lower: "0 < x \<Longrightarrow> exp y \<le> x \<Longrightarrow> y \<le> ln x" for x y :: real
  by (simp add: ln_ge_iff)

lemma ln_upper: "0 < x \<Longrightarrow> x \<le> exp y \<Longrightarrow> ln x \<le> y" for x y :: real
  by (metis exp_le_cancel_iff exp_ln)

lemma exp_quarter: "exp (4 * y) = exp y ^ 4" for y :: real
  using exp_of_nat_mult [of 4 y] by simp

lemma ln_45_le: "ln (45 :: real) \<le> 381 / 100"
proof -
  have "(25921 / 10000 :: real) \<le> (\<Sum>m<8. (9525 / 10000) ^ m / fact m)"
    by (simp add: lessThan_nat_numeral lessThan_Suc fact_numeral power_divide)
  also have "\<dots> \<le> exp (9525 / 10000)" by (rule exp_lower_sum) simp
  finally have "(25921 / 10000 :: real) ^ 4 \<le> exp (9525 / 10000) ^ 4"
    by (intro power_mono) simp_all
  moreover have "(45 :: real) \<le> (25921 / 10000) ^ 4" by (simp add: power_divide)
  ultimately have "45 \<le> exp (4 * (9525 / 10000 :: real))" unfolding exp_quarter by linarith
  then have "ln (45 :: real) \<le> 4 * (9525 / 10000)" by (intro ln_upper) simp_all
  then show ?thesis by simp
qed

lemma ln_4499_ge: "3806 / 1000 \<le> ln (4499 / 100 :: real)"
proof -
  have "exp (9515 / 10000 :: real) \<le> (\<Sum>m<9. (9515 / 10000) ^ m / fact m) + 3 * (9515 / 10000) ^ 9 / fact 9"
    by (rule exp_upper_sum) simp_all
  also have "\<dots> \<le> 25896 / 10000"
    by (simp add: lessThan_nat_numeral lessThan_Suc fact_numeral power_divide)
  finally have "exp (9515 / 10000 :: real) ^ 4 \<le> (25896 / 10000) ^ 4"
    by (intro power_mono) simp_all
  moreover have "(25896 / 10000 :: real) ^ 4 \<le> 4499 / 100" by (simp add: power_divide)
  ultimately have "exp (4 * (9515 / 10000 :: real)) \<le> 4499 / 100" unfolding exp_quarter by linarith
  then have "4 * (9515 / 10000) \<le> ln (4499 / 100 :: real)" by (intro ln_lower) simp_all
  then show ?thesis by simp
qed

lemma ln_8_ge: "2 \<le> ln (8 :: real)"
proof -
  have "exp (1 / 2 :: real) \<le> (\<Sum>m<6. (1 / 2) ^ m / fact m) + 3 * (1 / 2) ^ 6 / fact 6"
    by (rule exp_upper_sum) simp_all
  also have "\<dots> \<le> 165 / 100"
    by (simp add: lessThan_nat_numeral lessThan_Suc fact_numeral power_divide)
  finally have "exp (1 / 2 :: real) ^ 4 \<le> (165 / 100) ^ 4"
    by (intro power_mono) simp_all
  moreover have "(165 / 100 :: real) ^ 4 \<le> 8" by (simp add: power_divide)
  ultimately have "exp (4 * (1 / 2 :: real)) \<le> 8" unfolding exp_quarter by linarith
  then have "4 * (1 / 2) \<le> ln (8 :: real)" by (intro ln_lower) simp_all
  then show ?thesis by simp
qed

lemma ln_9_ge: "219 / 100 \<le> ln (9 :: real)"
proof -
  have "exp (5475 / 10000 :: real) \<le> (\<Sum>m<8. (5475 / 10000) ^ m / fact m) + 3 * (5475 / 10000) ^ 8 / fact 8"
    by (rule exp_upper_sum) simp_all
  also have "\<dots> \<le> 1729 / 1000"
    by (simp add: lessThan_nat_numeral lessThan_Suc fact_numeral power_divide)
  finally have "exp (5475 / 10000 :: real) ^ 4 \<le> (1729 / 1000) ^ 4"
    by (intro power_mono) simp_all
  moreover have "(1729 / 1000 :: real) ^ 4 \<le> 9" by (simp add: power_divide)
  ultimately have "exp (4 * (5475 / 10000 :: real)) \<le> 9" unfolding exp_quarter by linarith
  then have "4 * (5475 / 10000) \<le> ln (9 :: real)" by (intro ln_lower) simp_all
  then show ?thesis by simp
qed

lemma ln_diff_le:
  fixes x y :: real
  assumes "0 < x" and "x \<le> y"
  shows "ln y - ln x \<le> (y - x) / x"
proof -
  have "ln (y / x) \<le> y / x - 1" using assms by (intro ln_le_minus_one) simp
  then show ?thesis using assms by (simp add: ln_div diff_divide_distrib)
qed

lemma ln_close:
  fixes x y :: real
  assumes "7 \<le> x" and "7 \<le> y"
  shows "\<bar>ln x - ln y\<bar> \<le> \<bar>x - y\<bar> / 7"
proof -
  have *: "ln b - ln a \<le> (b - a) / 7" if "7 \<le> a" "a \<le> b" for a b :: real
  proof -
    have "ln b - ln a \<le> (b - a) / a" using that by (intro ln_diff_le) simp_all
    also have "\<dots> \<le> (b - a) / 7" using that by (intro divide_left_mono) simp_all
    finally show ?thesis .
  qed
  have **: "0 \<le> ln b - ln a" if "7 \<le> a" "a \<le> b" for a b :: real
    using that by simp
  show ?thesis
  proof (cases "x \<le> y")
    case True
    with * [of x y] ** [of x y] assms show ?thesis by simp
  next
    case False
    with * [of y x] ** [of y x] assms show ?thesis by simp
  qed
qed

section \<open>The computed curves and the real ones\<close>

lemma rn64_close:
  assumes "\<bar>y - z\<bar> \<le> d" and "\<bar>y\<bar> \<le> M"
  shows "\<bar>rn64 y - z\<bar> \<le> d + M / 2 ^ 53"
proof -
  have "\<bar>rn64 y - y\<bar> \<le> \<bar>y\<bar> / 2 ^ 53" by (rule rn64_err)
  also have "\<dots> \<le> M / 2 ^ 53" using assms(2) by (simp add: divide_right_mono)
  finally show ?thesis using assms(1) by linarith
qed

lemma mult_close:
  fixes p q a b :: real
  assumes "\<bar>p - a\<bar> \<le> da" and "\<bar>q - b\<bar> \<le> db" and "\<bar>a\<bar> \<le> A" and "\<bar>q\<bar> \<le> Q"
  shows "\<bar>p * q - a * b\<bar> \<le> da * Q + A * db"
proof -
  have "p * q - a * b = (p - a) * q + a * (q - b)" by (simp add: algebra_simps)
  then have "\<bar>p * q - a * b\<bar> \<le> \<bar>p - a\<bar> * \<bar>q\<bar> + \<bar>a\<bar> * \<bar>q - b\<bar>"
    by (metis abs_mult abs_triangle_ineq)
  also have "\<bar>p - a\<bar> * \<bar>q\<bar> \<le> da * Q"
    using assms(1,4) by (intro mult_mono) simp_all
  also have "\<bar>a\<bar> * \<bar>q - b\<bar> \<le> A * db"
    using assms(2,3) by (intro mult_mono) simp_all
  finally show ?thesis by simp
qed

text \<open>The argument of the curve: \<^verbatim>\<open>((double)temp / 100) - k\<close>.\<close>

lemma new_temp_approx:
  assumes "1000 \<le> t" and "t \<le> 10000" and "0 \<le> k" and "k \<le> 55"
  shows "\<bar>dsub (ddiv (of_int t) 100) k - (of_int t / 100 - k)\<bar> \<le> 1 / 2 ^ 45"
proof -
  define q where "q = rn64 (of_int t / 100)"
  have t: "10 \<le> (of_int t / 100 :: real)" "(of_int t / 100 :: real) \<le> 100"
    using assms(1,2) by simp_all
  have "\<bar>q - of_int t / 100\<bar> \<le> 0 + 100 / 2 ^ 53"
    unfolding q_def using t by (intro rn64_close) simp_all
  then have q: "\<bar>q - of_int t / 100\<bar> \<le> 100 / 2 ^ 53" by simp
  then have "\<bar>q - k\<bar> \<le> 101" using t assms(3,4) by (simp add: abs_if split: if_splits)
  then have "\<bar>rn64 (q - k) - (of_int t / 100 - k)\<bar> \<le> 100 / 2 ^ 53 + 101 / 2 ^ 53"
    using q by (intro rn64_close) simp_all
  then show ?thesis by (simp add: dsub_def ddiv_def q_def)
qed

lemma curve_approx:
  assumes acc: "log_accurate lg" and x0: "8 \<le> x0" "x0 \<le> 64"
    and x: "\<bar>x - x0\<bar> \<le> 1 / 2 ^ 45"
    and a: "\<bar>a\<bar> \<le> 512" and b: "\<bar>b\<bar> \<le> 1" and c: "\<bar>c\<bar> \<le> 128"
  shows "\<exists>v. curve lg a b c x = Some v \<and> \<bar>v - fit a b c x0\<bar> \<le> 1 / 2 ^ 12"
proof -
  define u :: real where "u = 1 / 2 ^ 53"
  have u: "0 < u" "u \<le> 1 / 2 ^ 53" by (simp_all add: u_def)
  have xr: "7 \<le> x" "x \<le> 65" "\<bar>x\<bar> \<le> 65" using x0 x by (simp_all add: abs_if split: if_splits)
  have a': "\<bar>rn64 a - a\<bar> \<le> 512 * u"
    using rn64_close [of a a 0 512] a by (simp add: u_def)
  have b': "\<bar>rn64 b - b\<bar> \<le> u"
    using rn64_close [of b b 0 1] b by (simp add: u_def)
  have c': "\<bar>rn64 c - c\<bar> \<le> 128 * u"
    using rn64_close [of c c 0 128] c by (simp add: u_def)
  \<comment> \<open>\<open>b * new_temp\<close>\<close>
  have P: "\<bar>rn64 b * x - b * x0\<bar> \<le> u * 65 + 1 * (1 / 2 ^ 45)"
    using b' x b xr(3) by (rule mult_close)
  then have Pb: "\<bar>rn64 b * x\<bar> \<le> 66"
  proof -
    have "\<bar>b * x0\<bar> \<le> 1 * 64" unfolding abs_mult using b x0 by (intro mult_mono) simp_all
    with P show ?thesis by (simp add: u_def abs_if split: if_splits)
  qed
  have p1: "\<bar>dmul (rn64 b) x - b * x0\<bar> \<le> u * 65 + 1 * (1 / 2 ^ 45) + 66 / 2 ^ 53"
    unfolding dmul_def using P Pb by (rule rn64_close)
  \<comment> \<open>\<open>a + b * new_temp\<close>\<close>
  have S: "\<bar>rn64 a + dmul (rn64 b) x - (a + b * x0)\<bar> \<le> 1 / 2 ^ 43"
    using a' p1 by (simp add: u_def abs_if split: if_splits)
  have "\<bar>a + b * x0\<bar> \<le> 512 + 1 * 64"
  proof -
    have "\<bar>b * x0\<bar> \<le> 1 * 64" unfolding abs_mult using b x0 by (intro mult_mono) simp_all
    with a show ?thesis by (simp add: abs_if split: if_splits)
  qed
  with S have Sb: "\<bar>rn64 a + dmul (rn64 b) x\<bar> \<le> 600" by (simp add: abs_if split: if_splits)
  have s1: "\<bar>dadd (rn64 a) (dmul (rn64 b) x) - (a + b * x0)\<bar> \<le> 1 / 2 ^ 43 + 600 / 2 ^ 53"
    unfolding dadd_def using S Sb by (rule rn64_close)
  \<comment> \<open>\<open>log(new_temp)\<close>\<close>
  have "\<bar>lg x - ln x\<bar> \<le> 1 / 2 ^ 20" using acc xr by (simp add: log_accurate_def)
  moreover have "\<bar>ln x - ln x0\<bar> \<le> \<bar>x - x0\<bar> / 7" using xr x0 by (intro ln_close) simp_all
  then have "\<bar>ln x - ln x0\<bar> \<le> 1 / 2 ^ 45" using x by simp
  ultimately have L: "\<bar>lg x - ln x0\<bar> \<le> 1 / 2 ^ 20 + 1 / 2 ^ 45"
    by (simp add: abs_if split: if_splits)
  have l0: "0 \<le> ln x0" "ln x0 \<le> 64"
    using x0 ln_bound [of x0] by simp_all
  then have l0a: "\<bar>ln x0\<bar> \<le> 64" by simp
  with L have Lb: "\<bar>lg x\<bar> \<le> 65" by (simp add: abs_if split: if_splits)
  \<comment> \<open>\<open>c * log(new_temp)\<close>\<close>
  have Q: "\<bar>rn64 c * lg x - c * ln x0\<bar> \<le> 128 * u * 65 + 128 * (1 / 2 ^ 20 + 1 / 2 ^ 45)"
    using c' L c Lb by (rule mult_close)
  have "\<bar>c * ln x0\<bar> \<le> 128 * 64" unfolding abs_mult using c l0a by (intro mult_mono) simp_all
  with Q have Qb: "\<bar>rn64 c * lg x\<bar> \<le> 8200" by (simp add: u_def abs_if split: if_splits)
  have q2: "\<bar>dmul (rn64 c) (lg x) - c * ln x0\<bar>
      \<le> 128 * u * 65 + 128 * (1 / 2 ^ 20 + 1 / 2 ^ 45) + 8200 / 2 ^ 53"
    unfolding dmul_def using Q Qb by (rule rn64_close)
  \<comment> \<open>the sum\<close>
  let ?s = "dadd (rn64 a) (dmul (rn64 b) x)" and ?q = "dmul (rn64 c) (lg x)"
  have V: "\<bar>?s + ?q - fit a b c x0\<bar> \<le> 1 / 2 ^ 13 + 1 / 2 ^ 37"
    using s1 q2 by (simp add: fit_def u_def abs_if split: if_splits)
  have "\<bar>fit a b c x0\<bar> \<le> 512 + 64 + 128 * 64"
  proof -
    have "\<bar>b * x0\<bar> \<le> 1 * 64" unfolding abs_mult using b x0 by (intro mult_mono) simp_all
    moreover have "\<bar>c * ln x0\<bar> \<le> 128 * 64" unfolding abs_mult using c l0a by (intro mult_mono) simp_all
    ultimately show ?thesis using a unfolding fit_def by linarith
  qed
  with V have Vb: "\<bar>?s + ?q\<bar> \<le> 8800" by (simp add: abs_if split: if_splits)
  have "\<bar>dadd ?s ?q - fit a b c x0\<bar> \<le> 1 / 2 ^ 13 + 1 / 2 ^ 37 + 8800 / 2 ^ 53"
    unfolding dadd_def [of ?s ?q] using V Vb by (rule rn64_close)
  then have "\<bar>dadd ?s ?q - fit a b c x0\<bar> \<le> 1 / 2 ^ 12" by simp
  moreover have "curve lg a b c x = Some (dadd ?s ?q)" using xr by (simp add: curve_def)
  ultimately show ?thesis by blast
qed


lemma channel_range: "0 \<le> v \<Longrightarrow> 0 \<le> channel v \<and> channel v \<le> 255"
  by (auto simp: channel_def)

lemma channel_mono: "v \<le> w \<Longrightarrow> channel v \<le> channel w"
  by (auto simp: channel_def floor_mono)

lemma clamp_channel:
  assumes "0 \<le> v"
  shows "\<exists>r. clamp v 255 = Some r \<and> uint r = channel v"
proof (cases "v > 255")
  case True
  then show ?thesis by (simp add: clamp_def double_to_ushort_def channel_def)
next
  case False
  then have f: "0 \<le> \<lfloor>v\<rfloor>" "\<lfloor>v\<rfloor> \<le> 255" using assms by (simp_all add: floor_le_iff) 
  then have "\<lfloor>v\<rfloor> < 2 ^ 16" by simp
  with f(1) have "uint (word_of_int \<lfloor>v\<rfloor> :: 16 word) = \<lfloor>v\<rfloor>"
    by (simp add: uint_word_of_int_eq take_bit_int_eq_self)
  then show ?thesis using False assms by (simp add: clamp_def double_to_ushort_def channel_def)
qed

lemma red_computed:
  assumes "log_accurate lg" and "6500 < t" and "t \<le> 10000"
  shows "\<exists>v. get_red lg t = clamp v 255 \<and> \<bar>v - red_fit t\<bar> \<le> 1 / 2 ^ 12"
proof -
  let ?x = "dsub (ddiv (of_int t) 100) 55"
  have x: "\<bar>?x - (of_int t / 100 - 55)\<bar> \<le> 1 / 2 ^ 45"
    using assms(2,3) by (intro new_temp_approx) simp_all
  have "\<exists>v. curve lg 351.97690566805693 0.114206453784165 (- 40.25366309332127) ?x = Some v
      \<and> \<bar>v - fit 351.97690566805693 0.114206453784165 (- 40.25366309332127) (of_int t / 100 - 55)\<bar>
          \<le> 1 / 2 ^ 12"
    using assms(2,3) by (intro curve_approx [OF assms(1) _ _ x]) simp_all
  then show ?thesis using assms(2) by (auto simp: get_red_def red_fit_def Let_def)
qed

lemma green_low_computed:
  assumes "log_accurate lg" and "1000 \<le> t" and "t \<le> 6500"
  shows "\<exists>v. get_green lg t = clamp v 255 \<and> \<bar>v - green_low_fit t\<bar> \<le> 1 / 2 ^ 12"
proof -
  let ?x = "dsub (ddiv (of_int t) 100) 2"
  have x: "\<bar>?x - (of_int t / 100 - 2)\<bar> \<le> 1 / 2 ^ 45"
    using assms(2,3) by (intro new_temp_approx) simp_all
  have "\<exists>v. curve lg (- 155.25485562709179) (- 0.44596950469579133) 104.49216199393888 ?x = Some v
      \<and> \<bar>v - fit (- 155.25485562709179) (- 0.44596950469579133) 104.49216199393888 (of_int t / 100 - 2)\<bar>
          \<le> 1 / 2 ^ 12"
    using assms(2,3) by (intro curve_approx [OF assms(1) _ _ x]) simp_all
  then show ?thesis using assms(3) by (auto simp: get_green_def green_low_fit_def Let_def)
qed

lemma green_high_computed:
  assumes "log_accurate lg" and "6500 < t" and "t \<le> 10000"
  shows "\<exists>v. get_green lg t = clamp v 255 \<and> \<bar>v - green_high_fit t\<bar> \<le> 1 / 2 ^ 12"
proof -
  let ?x = "dsub (ddiv (of_int t) 100) 50"
  have x: "\<bar>?x - (of_int t / 100 - 50)\<bar> \<le> 1 / 2 ^ 45"
    using assms(2,3) by (intro new_temp_approx) simp_all
  have "\<exists>v. curve lg 325.4494125711974 0.07943456536662342 (- 28.0852963507957) ?x = Some v
      \<and> \<bar>v - fit 325.4494125711974 0.07943456536662342 (- 28.0852963507957) (of_int t / 100 - 50)\<bar>
          \<le> 1 / 2 ^ 12"
    using assms(2,3) by (intro curve_approx [OF assms(1) _ _ x]) simp_all
  then show ?thesis using assms(2) by (auto simp: get_green_def green_high_fit_def Let_def)
qed

lemma blue_computed:
  assumes "log_accurate lg" and "1900 < t" and "t < 6500"
  shows "\<exists>v. get_blue lg t = clamp v 255 \<and> \<bar>v - blue_fit t\<bar> \<le> 1 / 2 ^ 12"
proof -
  let ?x = "dsub (ddiv (of_int t) 100) 10"
  have x: "\<bar>?x - (of_int t / 100 - 10)\<bar> \<le> 1 / 2 ^ 45"
    using assms(2,3) by (intro new_temp_approx) simp_all
  have "\<exists>v. curve lg (- 254.76935184120902) 0.8274096064007395 115.67994401066147 ?x = Some v
      \<and> \<bar>v - fit (- 254.76935184120902) 0.8274096064007395 115.67994401066147 (of_int t / 100 - 10)\<bar>
          \<le> 1 / 2 ^ 12"
    using assms(2,3) by (intro curve_approx [OF assms(1) _ _ x]) simp_all
  then show ?thesis using assms(2,3) by (auto simp: get_blue_def blue_fit_def Let_def)
qed

lemma red_fit_ge:
  assumes "6500 < t" and "t \<le> 10000"
  shows "198 \<le> red_fit t"
proof -
  define x :: real where "x = of_int t / 100 - 55"
  have x: "10 \<le> x" "x \<le> 45" using assms by (simp_all add: x_def)
  have "ln x \<le> ln 45" using x by simp
  with ln_45_le have "ln x \<le> 381 / 100" by linarith
  moreover have "0 \<le> 0.114206453784165 * x" using x by simp
  ultimately show ?thesis unfolding red_fit_def fit_def x_def [symmetric] by (simp; linarith)
qed

lemma green_low_fit_ge:
  assumes "1000 \<le> t" and "t \<le> 6500"
  shows "25 \<le> green_low_fit t"
proof -
  define x :: real where "x = of_int t / 100 - 2"
  have x: "8 \<le> x" "x \<le> 63" using assms by (simp_all add: x_def)
  have "ln 8 \<le> ln x" using x by simp
  with ln_8_ge have "2 \<le> ln x" by linarith
  then show ?thesis unfolding green_low_fit_def fit_def x_def [symmetric] using x by (simp; linarith)
qed

lemma green_high_fit_ge:
  assumes "6500 < t" and "t \<le> 10000"
  shows "200 \<le> green_high_fit t"
proof -
  define x :: real where "x = of_int t / 100 - 50"
  have x: "15 \<le> x" "x \<le> 50" using assms by (simp_all add: x_def)
  have "ln x \<le> ln 50" using x by simp
  moreover have "ln 50 - ln 45 \<le> (50 - 45) / (45 :: real)" by (rule ln_diff_le) simp_all
  ultimately have "ln x \<le> 4" using ln_45_le by (simp; linarith)
  then show ?thesis unfolding green_high_fit_def fit_def x_def [symmetric] using x by (simp; linarith)
qed

lemma blue_fit_ge:
  assumes "1900 < t" and "t < 6500"
  shows "6 \<le> blue_fit t"
proof -
  define x :: real where "x = of_int t / 100 - 10"
  have "1901 \<le> t" using assms by simp
  then have "(1901 :: real) \<le> of_int t" by (metis of_int_le_iff of_int_numeral)
  then have x: "9 \<le> x" by (simp add: x_def)
  have "ln 9 \<le> ln x" using x by simp
  with ln_9_ge have "219 / 100 \<le> ln x" by linarith
  then show ?thesis unfolding blue_fit_def fit_def x_def [symmetric] using x by (simp; linarith)
qed

lemma channel_of_clamp:
  assumes "get = clamp v 255" and "\<bar>v - f\<bar> \<le> 1 / 2 ^ 12" and "1 \<le> f"
  shows "\<exists>r. get = Some r \<and> uint r = channel v \<and> 0 \<le> uint r \<and> uint r \<le> 255"
proof -
  have v: "0 \<le> v" using assms(2,3) by (simp add: abs_if split: if_splits)
  from clamp_channel [OF v] channel_range [OF v] show ?thesis unfolding assms(1) by auto
qed

text \<open>
  C6. For a temperature from 1000 to 10000, boundaries included, each channel function returns
  a value (the conversion to \<^verbatim>\<open>unsigned short\<close> is defined) that is at least 0 and at most
  255, whatever the C library's \<^verbatim>\<open>log\<close> returns within \<open>2\<^sup>-\<^sup>2\<^sup>0\<close> of the logarithm.
\<close>

theorem channels_in_range:
  assumes "log_accurate lg" and "1000 \<le> t" and "t \<le> 10000"
  shows "\<exists>r g b. get_red lg t = Some r \<and> get_green lg t = Some g \<and> get_blue lg t = Some b
      \<and> 0 \<le> uint r \<and> uint r \<le> 255 \<and> 0 \<le> uint g \<and> uint g \<le> 255
      \<and> 0 \<le> uint b \<and> uint b \<le> 255"
proof -
  have r: "\<exists>r. get_red lg t = Some r \<and> 0 \<le> uint r \<and> uint r \<le> 255"
  proof (cases "t \<le> 6500")
    case True
    then show ?thesis by (simp add: get_red_def)
  next
    case False
    then have t: "6500 < t" by simp
    from red_computed [OF assms(1) t assms(3)] obtain v where
      v: "get_red lg t = clamp v 255" "\<bar>v - red_fit t\<bar> \<le> 1 / 2 ^ 12" by blast
    from channel_of_clamp [OF v] red_fit_ge [OF t assms(3)] show ?thesis by fastforce
  qed
  have g: "\<exists>g. get_green lg t = Some g \<and> 0 \<le> uint g \<and> uint g \<le> 255"
  proof (cases "t \<le> 6500")
    case True
    from green_low_computed [OF assms(1,2) True] obtain v where
      v: "get_green lg t = clamp v 255" "\<bar>v - green_low_fit t\<bar> \<le> 1 / 2 ^ 12" by blast
    from channel_of_clamp [OF v] green_low_fit_ge [OF assms(2) True] show ?thesis by fastforce
  next
    case False
    then have t: "6500 < t" by simp
    from green_high_computed [OF assms(1) t assms(3)] obtain v where
      v: "get_green lg t = clamp v 255" "\<bar>v - green_high_fit t\<bar> \<le> 1 / 2 ^ 12" by blast
    from channel_of_clamp [OF v] green_high_fit_ge [OF t assms(3)] show ?thesis by fastforce
  qed
  have b: "\<exists>b. get_blue lg t = Some b \<and> 0 \<le> uint b \<and> uint b \<le> 255"
  proof (cases "1900 < t \<and> t < 6500")
    case True
    from blue_computed [OF assms(1)] True obtain v where
      v: "get_blue lg t = clamp v 255" "\<bar>v - blue_fit t\<bar> \<le> 1 / 2 ^ 12" by blast
    from channel_of_clamp [OF v] blue_fit_ge True show ?thesis by fastforce
  next
    case False
    then show ?thesis by (auto simp: get_blue_def)
  qed
  from r g b show ?thesis by blast
qed

lemma log_accurate_ln: "log_accurate ln"
  by (simp add: log_accurate_def)

theorem channels_in_range_witness:
  "(\<exists>r g b. get_red ln 1900 = Some r \<and> get_green ln 1900 = Some g \<and> get_blue ln 1900 = Some b
      \<and> 0 \<le> uint r \<and> uint r \<le> 255 \<and> 0 \<le> uint g \<and> uint g \<le> 255
      \<and> 0 \<le> uint b \<and> uint b \<le> 255)
   \<and> (\<exists>r g b. get_red ln 6500 = Some r \<and> get_green ln 6500 = Some g \<and> get_blue ln 6500 = Some b
      \<and> 0 \<le> uint r \<and> uint r \<le> 255 \<and> 0 \<le> uint g \<and> uint g \<le> 255
      \<and> 0 \<le> uint b \<and> uint b \<le> 255)
   \<and> (\<exists>r g b. get_red ln 10000 = Some r \<and> get_green ln 10000 = Some g \<and> get_blue ln 10000 = Some b
      \<and> 0 \<le> uint r \<and> uint r \<le> 255 \<and> 0 \<le> uint g \<and> uint g \<le> 255
      \<and> 0 \<le> uint b \<and> uint b \<le> 255)"
proof -
  have a: "(1000 :: int) \<le> 1900" "(1900 :: int) \<le> 10000" "(1000 :: int) \<le> 6500"
    "(6500 :: int) \<le> 10000" "(1000 :: int) \<le> 10000" "(10000 :: int) \<le> 10000" by simp_all
  from channels_in_range [OF log_accurate_ln a(1,2)] channels_in_range [OF log_accurate_ln a(3,4)]
    channels_in_range [OF log_accurate_ln a(5,6)]
  show ?thesis by blast
qed


section \<open>The channels are monotone in the temperature\<close>

lemma blue_fit_step:
  assumes "1900 < t1" and "t1 < t2" and "t2 < 6500"
  shows "blue_fit t1 + 1 / 128 \<le> blue_fit t2"
proof -
  define x1 :: real where "x1 = of_int t1 / 100 - 10"
  define x2 :: real where "x2 = of_int t2 / 100 - 10"
  have "t1 + 1 \<le> t2" using assms(2) by simp
  then have "(of_int (t1 + 1) :: real) \<le> of_int t2" by (simp only: of_int_le_iff)
  then have d: "x1 + 1 / 100 \<le> x2" by (simp add: x1_def x2_def)
  have "(1900 :: real) < of_int t1" using assms(1) by (metis of_int_less_iff of_int_numeral)
  then have x1: "9 < x1" by (simp add: x1_def)
  then have "ln x1 \<le> ln x2" using d by simp
  then show ?thesis
    unfolding blue_fit_def fit_def x1_def [symmetric] x2_def [symmetric] using d
    by (simp; linarith)
qed

lemma red_fit_step:
  assumes "6500 < t1" and "t1 < t2" and "t2 \<le> 10000"
  shows "red_fit t2 + 1 / 256 \<le> red_fit t1"
proof -
  define x1 :: real where "x1 = of_int t1 / 100 - 55"
  define x2 :: real where "x2 = of_int t2 / 100 - 55"
  have "t1 + 1 \<le> t2" using assms(2) by simp
  then have "(of_int (t1 + 1) :: real) \<le> of_int t2" by (simp only: of_int_le_iff)
  then have d: "x1 + 1 / 100 \<le> x2" by (simp add: x1_def x2_def)
  have "(6500 :: real) < of_int t1" using assms(1) by (metis of_int_less_iff of_int_numeral)
  then have x1: "10 < x1" by (simp add: x1_def)
  have "(of_int t2 :: real) \<le> 10000" using assms(3) by (metis of_int_le_iff of_int_numeral)
  then have x2: "x2 \<le> 45" by (simp add: x2_def)
  have l: "ln x1 - ln x2 \<le> x1 / x2 - 1"
    using ln_le_minus_one [of "x1 / x2"] x1 d by (simp add: ln_div)
  have e: "x1 / x2 - 1 = - ((x2 - x1) / x2)"
    using x1 d by (simp add: field_simps)
  have "(x2 - x1) / 45 \<le> (x2 - x1) / x2"
    using x1 d x2 by (intro divide_left_mono) simp_all
  with l e have "ln x1 - ln x2 \<le> - ((x2 - x1) / 45)" by linarith
  then show ?thesis
    unfolding red_fit_def fit_def x1_def [symmetric] x2_def [symmetric] using d
    by (simp; argo)
qed


lemma red_channel:
  assumes "log_accurate lg" and "6500 < t" and "t \<le> 10000"
  shows "\<exists>v r. get_red lg t = Some r \<and> uint r = channel v \<and> \<bar>v - red_fit t\<bar> \<le> 1 / 2 ^ 12
      \<and> 197 \<le> v"
proof -
  from red_computed [OF assms] obtain v where
    v: "get_red lg t = clamp v 255" "\<bar>v - red_fit t\<bar> \<le> 1 / 2 ^ 12" by blast
  from v(2) red_fit_ge [OF assms(2,3)] have g: "197 \<le> v" by (simp add: abs_if split: if_splits)
  then have "0 \<le> v" by simp
  from clamp_channel [OF this] v g show ?thesis by auto
qed

lemma blue_channel:
  assumes "log_accurate lg" and "1900 < t" and "t < 6500"
  shows "\<exists>v b. get_blue lg t = Some b \<and> uint b = channel v \<and> \<bar>v - blue_fit t\<bar> \<le> 1 / 2 ^ 12
      \<and> 5 \<le> v"
proof -
  from blue_computed [OF assms] obtain v where
    v: "get_blue lg t = clamp v 255" "\<bar>v - blue_fit t\<bar> \<le> 1 / 2 ^ 12" by blast
  from v(2) blue_fit_ge [OF assms(2,3)] have g: "5 \<le> v" by (simp add: abs_if split: if_splits)
  then have "0 \<le> v" by simp
  from clamp_channel [OF this] v g show ?thesis by auto
qed

lemma channel_ge: "k \<le> 255 \<Longrightarrow> of_int k \<le> v \<Longrightarrow> k \<le> channel v"
  by (auto simp: channel_def le_floor_iff)

lemma red_range:
  assumes "log_accurate lg" and "1000 \<le> t" and "t \<le> 10000"
  shows "\<exists>r. get_red lg t = Some r \<and> 197 \<le> uint r \<and> uint r \<le> 255"
proof (cases "t \<le> 6500")
  case True
  then show ?thesis by (simp add: get_red_def)
next
  case False
  then have t: "6500 < t" by simp
  from red_channel [OF assms(1) t assms(3)] obtain v r where
    v: "get_red lg t = Some r" "uint r = channel v" "197 \<le> v" by blast
  have "0 \<le> v" using v(3) by simp
  from channel_range [OF this] channel_ge [of 197 v] v show ?thesis by simp
qed

lemma blue_range:
  assumes "log_accurate lg"
  shows "\<exists>b. get_blue lg t = Some b \<and> uint b \<le> 255 \<and> (1900 < t \<longrightarrow> 5 \<le> uint b)
      \<and> (6500 \<le> t \<longrightarrow> b = 255) \<and> (t \<le> 1900 \<longrightarrow> b = 0)"
proof (cases "1900 < t \<and> t < 6500")
  case True
  from blue_channel [OF assms] True obtain v b where
    v: "get_blue lg t = Some b" "uint b = channel v" "5 \<le> v" by blast
  have "0 \<le> v" using v(3) by simp
  from channel_range [OF this] channel_ge [of 5 v] v True show ?thesis by simp
next
  case False
  then show ?thesis by (auto simp: get_blue_def)
qed

lemma blue_mono:
  assumes "log_accurate lg" and "t1 \<le> t2"
    and "get_blue lg t1 = Some b1" and "get_blue lg t2 = Some b2"
  shows "uint b1 \<le> uint b2"
proof -
  from blue_range [OF assms(1), of t1] assms(3)
  have b1: "uint b1 \<le> 255" "t1 \<le> 1900 \<longrightarrow> b1 = 0" by auto
  from blue_range [OF assms(1), of t2] assms(4)
  have b2: "6500 \<le> t2 \<longrightarrow> b2 = 255" by auto
  show ?thesis
  proof (cases "1900 < t1 \<and> t2 < 6500")
    case False
    with b1 b2 show ?thesis by auto
  next
    case True
    with assms(2) have r: "1900 < t1" "t1 < 6500" "1900 < t2" "t2 < 6500" by simp_all
    from blue_channel [OF assms(1) r(1,2)] assms(3) obtain v1 where
      v1: "uint b1 = channel v1" "\<bar>v1 - blue_fit t1\<bar> \<le> 1 / 2 ^ 12" by auto
    from blue_channel [OF assms(1) r(3,4)] assms(4) obtain v2 where
      v2: "uint b2 = channel v2" "\<bar>v2 - blue_fit t2\<bar> \<le> 1 / 2 ^ 12" by auto
    show ?thesis
    proof (cases "t1 = t2")
      case True
      with assms(3,4) show ?thesis by simp
    next
      case False
      with assms(2) have "t1 < t2" by simp
      from blue_fit_step [OF r(1) this r(4)] v1(2) v2(2) have "v1 \<le> v2"
        by (simp add: abs_if split: if_splits)
      then show ?thesis unfolding v1(1) v2(1) by (rule channel_mono)
    qed
  qed
qed

lemma red_mono:
  assumes "log_accurate lg" and "1000 \<le> t1" and "t1 \<le> t2" and "t2 \<le> 10000"
    and "get_red lg t1 = Some r1" and "get_red lg t2 = Some r2"
  shows "uint r2 \<le> uint r1"
proof (cases "t1 \<le> 6500")
  case True
  then have "r1 = 255" using assms(5) by (simp add: get_red_def)
  moreover from red_range [OF assms(1), of t2] assms have "uint r2 \<le> 255" by auto
  ultimately show ?thesis by simp
next
  case False
  then have r: "6500 < t1" "t1 \<le> 10000" "6500 < t2" using assms(3,4) by simp_all
  from red_channel [OF assms(1) r(1,2)] assms(5) obtain v1 where
    v1: "uint r1 = channel v1" "\<bar>v1 - red_fit t1\<bar> \<le> 1 / 2 ^ 12" by auto
  from red_channel [OF assms(1) r(3) assms(4)] assms(6) obtain v2 where
    v2: "uint r2 = channel v2" "\<bar>v2 - red_fit t2\<bar> \<le> 1 / 2 ^ 12" by auto
  show ?thesis
  proof (cases "t1 = t2")
    case True
    with assms(5,6) show ?thesis by simp
  next
    case False
    with assms(3) have "t1 < t2" by simp
    from red_fit_step [OF r(1) this assms(4)] v1(2) v2(2) have "v2 \<le> v1"
      by (simp add: abs_if split: if_splits)
    then show ?thesis unfolding v1(1) v2(1) by (rule channel_mono)
  qed
qed

text \<open>At the upper end of the range the red channel is the same for 9999 and 10000.\<close>

lemma red_top:
  assumes "log_accurate lg"
  shows "get_red lg 9999 = get_red lg 10000"
proof -
  have a: "(6500 :: int) < 9999" "(9999 :: int) \<le> 10000" "(6500 :: int) < 10000"
    "(10000 :: int) \<le> 10000" by simp_all
  from red_channel [OF assms a(1,2)] obtain v1 r1 where
    v1: "get_red lg 9999 = Some r1" "uint r1 = channel v1" "\<bar>v1 - red_fit 9999\<bar> \<le> 1 / 2 ^ 12" by blast
  from red_channel [OF assms a(3,4)] obtain v2 r2 where
    v2: "get_red lg 10000 = Some r2" "uint r2 = channel v2" "\<bar>v2 - red_fit 10000\<bar> \<le> 1 / 2 ^ 12" by blast
  have lo: "2037 / 10 \<le> red_fit 10000"
    using ln_45_le by (simp add: red_fit_def fit_def; argo)
  have hi: "red_fit 9999 \<le> 20391 / 100"
    using ln_4499_ge by (simp add: red_fit_def fit_def; argo)
  have st: "red_fit 10000 + 1 / 256 \<le> red_fit 9999"
    by (rule red_fit_step) simp_all
  have "203 \<le> v1" "v1 < 204" "203 \<le> v2" "v2 < 204"
    using lo hi st v1(3) v2(3) by (simp_all add: abs_if split: if_splits)
  then have "channel v1 = 203" "channel v2 = 203"
    by (simp_all add: channel_def floor_eq_iff)
  then have "uint r1 = uint r2" using v1(2) v2(2) by simp
  then have "r1 = r2" by (rule word_uint_eqI)
  then show ?thesis using v1(1) v2(1) by simp
qed


section \<open>The comparison of the two quotients\<close>

lemma rn64_separated:
  assumes "x + 1 / 65025 \<le> y" and "\<bar>x\<bar> \<le> 255" and "\<bar>y\<bar> \<le> 255"
  shows "rn64 x < rn64 y"
proof -
  have "\<bar>rn64 x - x\<bar> \<le> 0 + 255 / 2 ^ 53" using assms(2) by (intro rn64_close) simp_all
  moreover have "\<bar>rn64 y - y\<bar> \<le> 0 + 255 / 2 ^ 53" using assms(3) by (intro rn64_close) simp_all
  ultimately show ?thesis using assms(1) by (simp add: abs_if split: if_splits)
qed

lemma ratio_separated:
  fixes a b c d :: nat
  assumes "a * d < c * b" and "1 \<le> b" "b \<le> 255" "1 \<le> d" "d \<le> 255"
  shows "real a / real b + 1 / 65025 \<le> real c / real d"
proof -
  have "a * d + 1 \<le> c * b" using assms(1) by simp
  then have "real (a * d + 1) \<le> real (c * b)" by (simp only: of_nat_le_iff)
  then have n: "real a * real d + 1 \<le> real c * real b" by simp
  have bd: "0 < real b * real d" using assms(2,4) by simp
  have "real b * real d \<le> 255 * 255"
    using assms(3,5) by (intro mult_mono) simp_all
  then have "1 / 65025 \<le> 1 / (real b * real d)"
    using bd by (simp add: field_simps)
  also have "\<dots> \<le> (real c * real b - real a * real d) / (real b * real d)"
    using n bd by (intro divide_right_mono) simp_all
  also have "\<dots> = real c / real d - real a / real b"
    using assms(2,4) by (simp add: field_simps)
  finally have "1 / 65025 \<le> real c / real d - real a / real b" .
  then show ?thesis by linarith
qed

lemma ratio_gt:
  fixes a b c d :: nat
  assumes "1 \<le> b" "b \<le> 255" "1 \<le> d" "d \<le> 255" "a \<le> 255" "c \<le> 255"
  shows "rn64 (real c / real d) < rn64 (real a / real b) \<longleftrightarrow> c * b < a * d"
proof -
  have ab: "\<bar>real a / real b\<bar> \<le> 255"
  proof -
    have "real a / real b \<le> real a / 1" using assms(1) by (intro divide_left_mono) simp_all
    then show ?thesis using assms(5) by simp
  qed
  have cd: "\<bar>real c / real d\<bar> \<le> 255"
  proof -
    have "real c / real d \<le> real c / 1" using assms(3) by (intro divide_left_mono) simp_all
    then show ?thesis using assms(6) by simp
  qed
  consider "c * b < a * d" | "a * d < c * b" | "a * d = c * b" by linarith
  then show ?thesis
  proof cases
    case 1
    from ratio_separated [OF 1 assms(3,4,1,2)] cd ab show ?thesis
      using 1 by (simp add: rn64_separated)
  next
    case 2
    from ratio_separated [OF 2 assms(1,2,3,4)] cd ab have "rn64 (real a / real b) < rn64 (real c / real d)"
      by (simp add: rn64_separated)
    with 2 show ?thesis by simp
  next
    case 3
    then have "real (a * d) = real (c * b)" by simp
    then have "real a / real b = real c / real d"
      using assms(1,3) by (simp add: field_simps)
    with 3 show ?thesis by simp
  qed
qed

lemma udiv_gt:
  assumes "1 \<le> uint d1" "uint d1 \<le> 255" "1 \<le> uint d2" "uint d2 \<le> 255"
    and "uint n1 \<le> 255" "uint n2 \<le> 255"
  shows "quotient_gt (udiv n1 d1) (udiv n2 d2) \<longleftrightarrow> uint n2 * uint d1 < uint n1 * uint d2"
proof -
  have nz: "d1 \<noteq> 0" "d2 \<noteq> 0" using assms(1,3) by auto
  have u: "1 \<le> unat d1" "unat d1 \<le> 255" "1 \<le> unat d2" "unat d2 \<le> 255"
    "unat n1 \<le> 255" "unat n2 \<le> 255"
    using assms unfolding uint_nat by linarith+
  have "quotient_gt (udiv n1 d1) (udiv n2 d2)
      \<longleftrightarrow> rn64 (real (unat n2) / real (unat d2)) < rn64 (real (unat n1) / real (unat d1))"
    using nz by (simp add: udiv_def ddiv_def)
  also have "\<dots> \<longleftrightarrow> unat n2 * unat d1 < unat n1 * unat d2"
    by (rule ratio_gt [OF u(1,2,3,4,5,6)])
  also have "\<dots> \<longleftrightarrow> uint n2 * uint d1 < uint n1 * uint d2"
    by (simp only: uint_nat of_nat_mult [symmetric] of_nat_less_iff)
  finally show ?thesis .
qed


section \<open>The search terminates\<close>

lemma sdiv_2: "0 \<le> k \<Longrightarrow> k sdiv 2 = k div 2" for k :: int
  by (simp add: signed_divide_int_def sgn_if)

lemma smod_50: "0 \<le> k \<Longrightarrow> k smod 50 = k mod 50" for k :: int
  by (simp add: signed_modulo_int_def signed_divide_int_def sgn_if minus_div_mult_eq_mod)

text \<open>
  The bisection on a key \<open>g\<close> that does not decrease with the temperature: when some
  temperature between the bounds has the wanted key \<open>G\<close>, the loop ends at such a temperature.
\<close>

lemma bisect_finds:
  fixes g :: "int \<Rightarrow> int"
  assumes step: "\<And>m. lo \<le> m \<Longrightarrow> m < hi \<Longrightarrow>
      \<exists>tr tb. get_red lg m = Some tr \<and> get_blue lg m = Some tb
        \<and> ((tr \<noteq> R \<or> tb \<noteq> B) \<longleftrightarrow> g m \<noteq> G)
        \<and> (quotient_gt (udiv tb tr) (udiv B R) \<longleftrightarrow> G < g m)"
    and mono: "\<And>m m'. lo \<le> m \<Longrightarrow> m \<le> m' \<Longrightarrow> m' < hi \<Longrightarrow> g m \<le> g m'"
    and lo: "0 \<le> lo" "lo \<le> mn" and hi: "mx \<le> hi"
    and t0: "mn \<le> t0" "t0 < mx" "g t0 = G"
  shows "\<exists>tm k. bisect lg R B mn mx it = Some (tm, k) \<and> mn \<le> tm \<and> tm < mx \<and> g tm = G"
  using lo(2) hi t0(1,2)
proof (induction "nat (mx - mn)" arbitrary: mn mx it rule: less_induct)
  case less
  define mid where "mid = (mx + mn) div 2"
  have m: "mn \<le> mid" "mid < mx" using less.prems(3,4) by (simp_all add: mid_def)
  have sd: "(mx + mn) sdiv 2 = mid"
    unfolding mid_def using lo(1) less.prems by (intro sdiv_2) simp
  from step [of mid] m less.prems obtain tr tb where
    c: "get_red lg mid = Some tr" "get_blue lg mid = Some tb"
      "(tr \<noteq> R \<or> tb \<noteq> B) \<longleftrightarrow> g mid \<noteq> G"
      "quotient_gt (udiv tb tr) (udiv B R) \<longleftrightarrow> G < g mid"
    by force
  show ?case
  proof (cases "g mid = G")
    case True
    then have "bisect lg R B mn mx it = Some (mid, Suc it)"
      using c by (subst bisect.simps) (simp add: sd Let_def)
    with m True show ?thesis by blast
  next
    case False
    show ?thesis
    proof (cases "G < g mid")
      case up: True
      have "t0 < mid"
      proof (rule ccontr)
        assume "\<not> t0 < mid"
        then have "g mid \<le> g t0" using m less.prems by (intro mono) simp_all
        with up t0(3) show False by simp
      qed
      moreover have "nat (mid - mn) < nat (mx - mn)" using m by simp
      ultimately have "\<exists>tm k. bisect lg R B mn mid (Suc it) = Some (tm, k)
          \<and> mn \<le> tm \<and> tm < mid \<and> g tm = G"
        using less.prems m by (intro less.hyps) simp_all
      moreover have "bisect lg R B mn mx it = bisect lg R B mn mid (Suc it)"
        using c False up by (subst bisect.simps) (simp add: sd Let_def)
      ultimately show ?thesis using m by force
    next
      case down: False
      with False have lt: "g mid < G" by simp
      have "mid < t0"
      proof (rule ccontr)
        assume "\<not> mid < t0"
        then have "g t0 \<le> g mid" using m less.prems by (intro mono) simp_all
        with lt t0(3) show False by simp
      qed
      then have a: "mid \<le> t0" "mn < mid" using less.prems(3,4) by (simp_all add: mid_def)
      then have "nat (mx - mid) < nat (mx - mn)" using m by simp
      then have "\<exists>tm k. bisect lg R B mid mx (Suc it) = Some (tm, k)
          \<and> mid \<le> tm \<and> tm < mx \<and> g tm = G"
        using less.prems m a by (intro less.hyps) simp_all
      moreover have "bisect lg R B mn mx it = bisect lg R B mid mx (Suc it)"
        using c False down by (subst bisect.simps) (simp add: sd Let_def)
      ultimately show ?thesis using m by force
    qed
  qed
qed


lemma red_low: "t \<le> 6500 \<Longrightarrow> get_red lg t = Some 255"
  by (simp add: get_red_def)

lemma blue_high:
  assumes "log_accurate lg" and "6500 \<le> t"
  shows "get_blue lg t = Some 255"
  using blue_range [OF assms(1), of t] assms(2) by auto

lemma bisect_saturated:
  assumes "log_accurate lg"
  shows "bisect lg 255 255 6500 6500 0 = Some (6500, 1)"
proof -
  have "(6500 + 6500 :: int) sdiv 2 = 6500" by (simp add: sdiv_2)
  moreover have "get_red lg 6500 = Some 255" by (simp add: red_low)
  moreover have "get_blue lg 6500 = Some 255" using assms by (simp add: blue_high)
  ultimately show ?thesis by (subst bisect.simps) (simp add: Let_def)
qed

lemma bisect_blue:
  assumes la: "log_accurate lg" and t: "1000 \<le> t" "t < 6500"
    and B: "get_blue lg t = Some B"
  shows "\<exists>tm k. bisect lg 255 B 1000 6500 0 = Some (tm, k) \<and> 1000 \<le> tm \<and> tm < 6500
      \<and> get_blue lg tm = Some B"
proof -
  define g where "g m = uint (the (get_blue lg m))" for m
  from blue_range [OF la, of t] B have B255: "uint B \<le> 255" by auto
  have d: "(1 :: int) \<le> uint (255 :: ushort)" "uint (255 :: ushort) \<le> 255" by simp_all
  have step: "\<exists>tr tb. get_red lg m = Some tr \<and> get_blue lg m = Some tb
        \<and> ((tr \<noteq> 255 \<or> tb \<noteq> B) \<longleftrightarrow> g m \<noteq> uint B)
        \<and> (quotient_gt (udiv tb tr) (udiv B 255) \<longleftrightarrow> uint B < g m)"
    if "1000 \<le> m" "m < 6500" for m
  proof -
    from blue_range [OF la, of m] obtain tb where
      tb: "get_blue lg m = Some tb" "uint tb \<le> 255" by blast
    have r: "get_red lg m = Some 255" using that by (simp add: red_low)
    have gm: "g m = uint tb" by (simp add: g_def tb)
    have "quotient_gt (udiv tb 255) (udiv B 255) \<longleftrightarrow> uint B < uint tb"
      using udiv_gt [OF d d tb(2) B255] by simp
    moreover have "tb = B \<longleftrightarrow> uint tb = uint B" by (simp add: word_uint_eq_iff)
    ultimately show ?thesis using r tb gm by simp
  qed
  have mono: "g m \<le> g m'" if "1000 \<le> m" "m \<le> m'" "m' < 6500" for m m'
  proof -
    from blue_range [OF la, of m] obtain b1 where b1: "get_blue lg m = Some b1" by blast
    from blue_range [OF la, of m'] obtain b2 where b2: "get_blue lg m' = Some b2" by blast
    from blue_mono [OF la that(2) b1 b2] show ?thesis by (simp add: g_def b1 b2)
  qed
  have gt: "g t = uint B" by (simp add: g_def B)
  have z: "(0 :: int) \<le> 1000" "(1000 :: int) \<le> 1000" "(6500 :: int) \<le> 6500" by simp_all
  from bisect_finds [where g = g and G = "uint B" and lo = 1000 and hi = 6500 and lg = lg
      and R = 255 and B = B and mn = 1000 and mx = 6500 and ?t0.0 = t and it = 0,
      OF step mono z t gt]
  obtain tm k where r: "bisect lg 255 B 1000 6500 0 = Some (tm, k)" "1000 \<le> tm" "tm < 6500"
    "g tm = uint B" by blast
  from blue_range [OF la, of tm] obtain tb where tb: "get_blue lg tm = Some tb" by blast
  with r(4) have "tb = B" by (simp add: g_def word_uint_eq_iff)
  with r tb show ?thesis by blast
qed

lemma bisect_red:
  assumes la: "log_accurate lg" and t: "6500 \<le> t" "t \<le> 10000"
    and R: "get_red lg t = Some R"
  shows "\<exists>tm k. bisect lg R 255 6500 10000 0 = Some (tm, k) \<and> 6500 \<le> tm \<and> tm < 10000
      \<and> get_red lg tm = Some R"
proof -
  define g where "g m = - uint (the (get_red lg m))" for m
  define t0 where "t0 = (if t = 10000 then 9999 else t)"
  from red_range [OF la, of t] R t have R255: "1 \<le> uint R" "uint R \<le> 255" by auto
  have d: "uint (255 :: ushort) \<le> 255" by simp
  have step: "\<exists>tr tb. get_red lg m = Some tr \<and> get_blue lg m = Some tb
        \<and> ((tr \<noteq> R \<or> tb \<noteq> 255) \<longleftrightarrow> g m \<noteq> - uint R)
        \<and> (quotient_gt (udiv tb tr) (udiv 255 R) \<longleftrightarrow> - uint R < g m)"
    if "6500 \<le> m" "m < 10000" for m
  proof -
    from red_range [OF la, of m] that obtain tr where
      tr: "get_red lg m = Some tr" "1 \<le> uint tr" "uint tr \<le> 255" by auto
    have b: "get_blue lg m = Some 255" using la that by (simp add: blue_high)
    have gm: "g m = - uint tr" by (simp add: g_def tr)
    have "quotient_gt (udiv 255 tr) (udiv 255 R) \<longleftrightarrow> uint tr < uint R"
      using udiv_gt [OF tr(2,3) R255 d d] by simp
    moreover have "tr = R \<longleftrightarrow> uint tr = uint R" by (simp add: word_uint_eq_iff)
    ultimately show ?thesis using b tr gm by simp
  qed
  have mono: "g m \<le> g m'" if "6500 \<le> m" "m \<le> m'" "m' < 10000" for m m'
  proof -
    from red_range [OF la, of m] that obtain r1 where r1: "get_red lg m = Some r1" by auto
    from red_range [OF la, of m'] that obtain r2 where r2: "get_red lg m' = Some r2" by auto
    from red_mono [OF la _ that(2) _ r1 r2] that show ?thesis by (simp add: g_def r1 r2)
  qed
  have "get_red lg t0 = Some R" using R red_top [OF la] by (auto simp: t0_def)
  then have gt: "g t0 = - uint R" by (simp add: g_def)
  have t0: "6500 \<le> t0" "t0 < 10000" using t by (simp_all add: t0_def)
  have z: "(0 :: int) \<le> 6500" "(6500 :: int) \<le> 6500" "(10000 :: int) \<le> 10000" by simp_all
  from bisect_finds [where g = g and G = "- uint R" and lo = 6500 and hi = 10000 and lg = lg
      and R = R and B = 255 and mn = 6500 and mx = 10000 and ?t0.0 = t0 and it = 0,
      OF step mono z t0 gt]
  obtain tm k where r: "bisect lg R 255 6500 10000 0 = Some (tm, k)" "6500 \<le> tm" "tm < 10000"
    "g tm = - uint R" by blast
  from red_range [OF la, of tm] r obtain tr where tr: "get_red lg tm = Some tr" by auto
  with r(4) have "tr = R" by (simp add: g_def word_uint_eq_iff)
  with r tr show ?thesis by blast
qed


section \<open>The round trip\<close>

lemma bisect_pair:
  assumes la: "log_accurate lg" and t: "1000 \<le> t" "t \<le> 10000"
    and R: "get_red lg t = Some R" and B: "get_blue lg t = Some B"
  shows "\<exists>tm k. bisect lg R B (min_temp_init B) (max_temp_init R) 0 = Some (tm, k)
      \<and> 1000 \<le> tm \<and> tm \<le> 10000 \<and> get_red lg tm = Some R \<and> get_blue lg tm = Some B"
proof (cases "R = 255")
  case True
  show ?thesis
  proof (cases "B = 255")
    case B255: True
    with True bisect_saturated [OF la] red_low [of 6500 lg] blue_high [OF la, of 6500]
    show ?thesis by (simp add: min_temp_init_def max_temp_init_def)
  next
    case False
    with blue_high [OF la, of t] B have "t < 6500" by force
    from bisect_blue [OF la t(1) this B] obtain tm k where
      "bisect lg 255 B 1000 6500 0 = Some (tm, k)" "1000 \<le> tm" "tm < 6500"
      "get_blue lg tm = Some B" by blast
    with True False red_low [of tm lg] show ?thesis
      by (simp add: min_temp_init_def max_temp_init_def)
  qed
next
  case False
  with red_low [of t lg] R have t': "6500 \<le> t" by force
  with blue_high [OF la] B have B255: "B = 255" by simp
  from bisect_red [OF la t' t(2) R] obtain tm k where
    "bisect lg R 255 6500 10000 0 = Some (tm, k)" "6500 \<le> tm" "tm < 10000"
    "get_red lg tm = Some R" by blast
  with False B255 blue_high [OF la, of tm] show ?thesis
    by (simp add: min_temp_init_def max_temp_init_def)
qed

lemma same_pair_defined:
  assumes "log_accurate lg" and "1000 \<le> t" and "t \<le> 10000"
  shows "\<exists>r b. get_red lg t = Some r \<and> get_blue lg t = Some b
      \<and> same_pair lg R B t = Some (r = R \<and> b = B)"
proof -
  from red_range [OF assms] obtain r where r: "get_red lg t = Some r" by blast
  from blue_range [OF assms(1), of t] obtain b where b: "get_blue lg t = Some b" by blast
  from r b show ?thesis by (simp add: same_pair_def)
qed

lemma fit50_pair:
  assumes la: "log_accurate lg" and t: "1000 \<le> tm" "tm \<le> 10000"
    and R: "get_red lg tm = Some R" and B: "get_blue lg tm = Some B"
  shows "\<exists>t'. fit50 lg R B tm = Some t' \<and> 1000 \<le> t' \<and> t' \<le> 10000
      \<and> get_red lg t' = Some R \<and> get_blue lg t' = Some B
      \<and> (t' = tm \<or> t' = tm - tm mod 50 \<or> t' = tm + 50 - tm mod 50)"
proof (cases "tm mod 50 = 0")
  case True
  with t R B show ?thesis by (simp add: fit50_def smod_50)
next
  case False
  have sm: "tm smod 50 = tm mod 50" using t by (simp add: smod_50)
  define lo where "lo = tm - tm mod 50"
  define hi where "hi = tm + 50 - tm mod 50"
  define q where "q = tm div 50"
  define r where "r = tm mod 50"
  have "0 \<le> r" "r < 50" "r \<noteq> 0" using False by (simp_all add: r_def)
  then have qr: "tm = 50 * q + r" "0 < r" "r < 50" by (simp_all add: q_def r_def)
  have q: "20 \<le> q" "q < 200" using qr t by linarith+
  have l: "1000 \<le> lo" "lo \<le> 10000"
    using qr q unfolding lo_def r_def [symmetric] by linarith+
  have h: "1000 \<le> hi" "hi \<le> 10000"
    using qr q unfolding hi_def r_def [symmetric] by linarith+
  from same_pair_defined [OF la l, of R B] obtain r1 b1 where
    1: "get_red lg lo = Some r1" "get_blue lg lo = Some b1"
    "same_pair lg R B lo = Some (r1 = R \<and> b1 = B)" by blast
  from same_pair_defined [OF la h, of R B] obtain r2 b2 where
    2: "get_red lg hi = Some r2" "get_blue lg hi = Some b2"
    "same_pair lg R B hi = Some (r2 = R \<and> b2 = B)" by blast
  have f: "fit50 lg R B tm = Some (if r1 = R \<and> b1 = B then lo
      else if r2 = R \<and> b2 = B then hi else tm)"
    using False 1(3) 2(3) by (simp add: fit50_def sm Let_def lo_def [symmetric] hi_def [symmetric])
  show ?thesis
  proof (cases "r1 = R \<and> b1 = B")
    case True
    with f 1 l show ?thesis by (auto simp: lo_def)
  next
    case n1: False
    show ?thesis
    proof (cases "r2 = R \<and> b2 = B")
      case True
      with f n1 2 h show ?thesis by (auto simp: hi_def)
    next
      case n2: False
      with f n1 t R B show ?thesis by auto
    qed
  qed
qed


lemma fit50_rule:
  assumes la: "log_accurate lg" and t: "1000 \<le> tm" "tm \<le> 10000"
  shows "fit50 lg R B tm = Some
     (if tm mod 50 = 0 then tm
      else if get_red lg (tm - tm mod 50) = Some R \<and> get_blue lg (tm - tm mod 50) = Some B
      then tm - tm mod 50
      else if get_red lg (tm + 50 - tm mod 50) = Some R
                \<and> get_blue lg (tm + 50 - tm mod 50) = Some B
      then tm + 50 - tm mod 50
      else tm)"
proof (cases "tm mod 50 = 0")
  case True
  with t show ?thesis by (simp add: fit50_def smod_50)
next
  case False
  have sm: "tm smod 50 = tm mod 50" using t by (simp add: smod_50)
  define lo where "lo = tm - tm mod 50"
  define hi where "hi = tm + 50 - tm mod 50"
  define q where "q = tm div 50"
  define r where "r = tm mod 50"
  have "0 \<le> r" "r < 50" "r \<noteq> 0" using False by (simp_all add: r_def)
  then have qr: "tm = 50 * q + r" "0 < r" "r < 50" by (simp_all add: q_def r_def)
  have q: "20 \<le> q" "q < 200" using qr t by linarith+
  have l: "1000 \<le> lo" "lo \<le> 10000"
    using qr q unfolding lo_def r_def [symmetric] by linarith+
  have h: "1000 \<le> hi" "hi \<le> 10000"
    using qr q unfolding hi_def r_def [symmetric] by linarith+
  from same_pair_defined [OF la l, of R B] obtain r1 b1 where
    1: "get_red lg lo = Some r1" "get_blue lg lo = Some b1"
    "same_pair lg R B lo = Some (r1 = R \<and> b1 = B)" by blast
  from same_pair_defined [OF la h, of R B] obtain r2 b2 where
    2: "get_red lg hi = Some r2" "get_blue lg hi = Some b2"
    "same_pair lg R B hi = Some (r2 = R \<and> b2 = B)" by blast
  have "fit50 lg R B tm = Some (if r1 = R \<and> b1 = B then lo
      else if r2 = R \<and> b2 = B then hi else tm)"
    using False 1(3) 2(3) by (simp add: fit50_def sm Let_def lo_def [symmetric] hi_def [symmetric])
  with False 1(1,2) 2(1,2) show ?thesis
    by (simp add: lo_def [symmetric] hi_def [symmetric])
qed

lemma get_temp_pair:
  assumes la: "log_accurate lg" and t: "1000 \<le> t" "t \<le> 10000"
    and R: "get_red lg t = Some R" and B: "get_blue lg t = Some B"
  shows "\<exists>t'. get_temp lg R B = Some t' \<and> 1000 \<le> t' \<and> t' \<le> 10000
      \<and> get_red lg t' = Some R \<and> get_blue lg t' = Some B"
proof -
  from bisect_pair [OF assms] obtain tm k where
    b: "bisect lg R B (min_temp_init B) (max_temp_init R) 0 = Some (tm, k)"
    and tm: "1000 \<le> tm" "tm \<le> 10000" "get_red lg tm = Some R" "get_blue lg tm = Some B"
    by blast
  from fit50_pair [OF la tm] obtain t' where
    f: "fit50 lg R B tm = Some t'" "1000 \<le> t'" "t' \<le> 10000"
    "get_red lg t' = Some R" "get_blue lg t' = Some B" by blast
  from b f(1) have "get_temp lg R B = Some t'"
    by (simp add: get_temp_def get_temp_iters_def)
  with f show ?thesis by blast
qed

text \<open>
  The search for the pair of 1000 K, red 255 and blue 0: the midpoints 3750 and 2375 have a
  blue above 0 and lower the upper bound, the midpoint 1687 has the pair, and 1650 has it too.
\<close>

lemma bisect_blue_down:
  assumes la: "log_accurate lg" and "0 \<le> mx + mn" and mid: "mid = (mx + mn) div 2"
    and "1900 < mid" and "mid < 6500"
  shows "bisect lg 255 0 mn mx it = bisect lg 255 0 mn mid (Suc it)"
proof -
  from blue_range [OF la, of mid] assms(4) obtain b where
    b: "get_blue lg mid = Some b" "uint b \<le> 255" "5 \<le> uint b" by blast
  have nz: "b \<noteq> 0" using b(3) by auto
  have d: "(1 :: int) \<le> uint (255 :: ushort)" "uint (255 :: ushort) \<le> 255"
    "uint (0 :: ushort) \<le> 255" by simp_all
  have up: "quotient_gt (udiv b 255) (udiv 0 255)"
    using udiv_gt [OF d(1,2) d(1,2) b(2) d(3)] b(3) by simp
  have r: "get_red lg mid = Some 255" using assms(5) by (simp add: red_low)
  have sd: "(mx + mn) sdiv 2 = mid" using assms(2) mid by (simp add: sdiv_2)
  show ?thesis using b(1) r up nz by (subst bisect.simps) (simp add: sd Let_def)
qed

lemma blue_low:
  assumes "log_accurate lg" and "t \<le> 1900"
  shows "get_blue lg t = Some 0"
  using blue_range [OF assms(1), of t] assms(2) by auto

lemma get_temp_1000:
  assumes la: "log_accurate lg"
  shows "get_temp_iters lg 255 0 = Some (1650, 3)"
proof -
  have "bisect lg 255 0 1000 6500 0 = bisect lg 255 0 1000 3750 (Suc 0)"
    by (rule bisect_blue_down [OF la]) simp_all
  also have "\<dots> = bisect lg 255 0 1000 2375 (Suc (Suc 0))"
    by (rule bisect_blue_down [OF la]) simp_all
  also have "\<dots> = Some (1687, 3)"
  proof -
    have "(2375 + 1000 :: int) sdiv 2 = 1687" by (simp add: sdiv_2)
    moreover have "get_red lg 1687 = Some 255" by (simp add: red_low)
    moreover have "get_blue lg 1687 = Some 0" using la by (simp add: blue_low)
    ultimately show ?thesis by (subst bisect.simps) (simp add: Let_def)
  qed
  finally have b: "bisect lg 255 0 1000 6500 0 = Some (1687, 3)" .
  have "(1687 :: int) smod 50 = 37" by (simp add: smod_50)
  moreover have "same_pair lg 255 0 1650 = Some True"
    using la by (simp add: same_pair_def red_low blue_low)
  ultimately have "fit50 lg 255 0 1687 = Some 1650" by (simp add: fit50_def Let_def)
  with b show ?thesis
    by (simp add: get_temp_iters_def min_temp_init_def max_temp_init_def)
qed

text \<open>
  C2, as stated, does not hold: the returned temperature need not be the one that was
  converted, also when that one is a multiple of 50. At 1000 K the channels are red 255 and
  blue 0; the search for this pair ends after three executions of the loop body at 1687 K, which
  is rounded to 1650 K, and 1650 K has the same pair.
\<close>

theorem round_trip_counterexample:
  "get_red ln 1000 = Some 255 \<and> get_blue ln 1000 = Some 0
   \<and> get_temp_iters ln 255 0 = Some (1650, 3) \<and> get_temp ln 255 0 = Some 1650
   \<and> get_red ln 1650 = Some 255 \<and> get_blue ln 1650 = Some 0"
  using get_temp_1000 [OF log_accurate_ln] blue_low [OF log_accurate_ln]
  by (simp add: get_temp_def red_low)

text \<open>
  C2, amended. For a temperature from 1000 to 10000, and a C library's \<^verbatim>\<open>log\<close> within
  \<open>2\<^sup>-\<^sup>2\<^sup>0\<close> of the logarithm, \<^verbatim>\<open>get_temp\<close> applied to the red and the blue of the
  temperature leaves its loop, at a temperature \<open>tm\<close> that has this red and this blue, and
  returns a temperature from 1000 to 10000 that has them too: \<open>tm\<close> itself when it is a
  multiple of 50; otherwise the multiple of 50 just below \<open>tm\<close> when it has the pair;
  otherwise the multiple of 50 just above \<open>tm\<close> when that one has the pair; otherwise \<open>tm\<close>.
  It need not be the temperature converted.
\<close>

theorem round_trip:
  assumes "log_accurate lg" and "1000 \<le> t" and "t \<le> 10000"
  shows "\<exists>r b tm k t'. get_red lg t = Some r \<and> get_blue lg t = Some b
      \<and> bisect lg r b (min_temp_init b) (max_temp_init r) 0 = Some (tm, k)
      \<and> get_red lg tm = Some r \<and> get_blue lg tm = Some b
      \<and> get_temp lg r b = Some t' \<and> 1000 \<le> t' \<and> t' \<le> 10000
      \<and> get_red lg t' = Some r \<and> get_blue lg t' = Some b
      \<and> t' = (if tm mod 50 = 0 then tm
              else if get_red lg (tm - tm mod 50) = Some r
                        \<and> get_blue lg (tm - tm mod 50) = Some b
              then tm - tm mod 50
              else if get_red lg (tm + 50 - tm mod 50) = Some r
                        \<and> get_blue lg (tm + 50 - tm mod 50) = Some b
              then tm + 50 - tm mod 50
              else tm)"
proof -
  from red_range [OF assms] obtain r where r: "get_red lg t = Some r" by blast
  from blue_range [OF assms(1), of t] obtain b where b: "get_blue lg t = Some b" by blast
  from bisect_pair [OF assms r b] obtain tm k where
    s: "bisect lg r b (min_temp_init b) (max_temp_init r) 0 = Some (tm, k)"
    and tm: "1000 \<le> tm" "tm \<le> 10000" "get_red lg tm = Some r" "get_blue lg tm = Some b"
    by blast
  from fit50_pair [OF assms(1) tm] obtain t' where
    f: "fit50 lg r b tm = Some t'" "1000 \<le> t'" "t' \<le> 10000"
    "get_red lg t' = Some r" "get_blue lg t' = Some b" by blast
  from s f(1) have g: "get_temp lg r b = Some t'"
    by (simp add: get_temp_def get_temp_iters_def)
  from fit50_rule [OF assms(1) tm(1,2), of r b] f(1)
  have "t' = (if tm mod 50 = 0 then tm
              else if get_red lg (tm - tm mod 50) = Some r
                        \<and> get_blue lg (tm - tm mod 50) = Some b
              then tm - tm mod 50
              else if get_red lg (tm + 50 - tm mod 50) = Some r
                        \<and> get_blue lg (tm + 50 - tm mod 50) = Some b
              then tm + 50 - tm mod 50
              else tm)" by simp
  with r b s tm f g show ?thesis by blast
qed

theorem round_trip_witness:
  "\<exists>r b tm k t'. get_red ln 1000 = Some r \<and> get_blue ln 1000 = Some b
      \<and> bisect ln r b (min_temp_init b) (max_temp_init r) 0 = Some (tm, k)
      \<and> get_red ln tm = Some r \<and> get_blue ln tm = Some b
      \<and> get_temp ln r b = Some t' \<and> 1000 \<le> t' \<and> t' \<le> 10000
      \<and> get_red ln t' = Some r \<and> get_blue ln t' = Some b
      \<and> t' = (if tm mod 50 = 0 then tm
              else if get_red ln (tm - tm mod 50) = Some r
                        \<and> get_blue ln (tm - tm mod 50) = Some b
              then tm - tm mod 50
              else if get_red ln (tm + 50 - tm mod 50) = Some r
                        \<and> get_blue ln (tm + 50 - tm mod 50) = Some b
              then tm + 50 - tm mod 50
              else tm)"
proof -
  have a: "(1000 :: int) \<le> 1000" "(1000 :: int) \<le> 10000" by simp_all
  from round_trip [OF log_accurate_ln a] show ?thesis .
qed


section \<open>Every call is logged, none is erased\<close>

lemma ioctl_retry_some:
  "ioctl_retry rs n = Some (r, rest, k) \<Longrightarrow> r \<noteq> Failed EINTR \<and> n < k"
  by (induction rs n rule: ioctl_retry.induct) (auto split: if_splits)

lemma xioctl_calls:
  "xioctl request w = Some (r, f, w') \<Longrightarrow> prefix (calls w) (calls w')"
  by (auto simp: xioctl_def set_quit_def Let_def split: Option.bind_splits ioctl_result.splits prod.splits)

lemma stop_stream_calls: "stop_stream w = Some w' \<Longrightarrow> prefix (calls w) (calls w')"
  by (auto simp: stop_stream_def split: Option.bind_splits dest: xioctl_calls)

lemma start_stream_calls: "start_stream w = Some w' \<Longrightarrow> prefix (calls w) (calls w')"
  by (auto simp: start_stream_def split: Option.bind_splits dest: xioctl_calls)

lemma init_calls: "init w = Some w' \<Longrightarrow> prefix (calls w) (calls w')"
  unfolding init_def
  by (auto simp: set_quit_def Let_def split: Option.bind_splits if_splits prod.splits filled.splits
      dest!: xioctl_calls intro: prefix_order.trans)

lemma init_mmap_calls: "init_mmap w = Some w' \<Longrightarrow> prefix (calls w) (calls w')"
  unfolding init_mmap_def
  by (auto simp: set_quit_def log_call_def Let_def split: Option.bind_splits if_splits prod.splits filled.splits
      dest!: xioctl_calls intro: prefix_order.trans)

lemma capture_frame_calls: "capture_frame i w = Some w' \<Longrightarrow> prefix (calls w) (calls w')"
  unfolding capture_frame_def
  by (auto simp: Let_def split: Option.bind_splits if_splits prod.splits filled.splits option.splits
      dest!: xioctl_calls stop_stream_calls intro: prefix_order.trans)

lemma capture_loop_calls: "capture_loop i n w = Some w' \<Longrightarrow> prefix (calls w) (calls w')"
proof (induction i n w rule: capture_loop.induct)
  case (1 i n w)
  show ?case
  proof (cases "i < n \<and> quit (st w) = 0")
    case True
    with "1.prems" obtain w1 where a: "capture_frame i w = Some w1" and b: "capture_loop (i + 1) n w1 = Some w'"
      by (subst (asm) capture_loop.simps) (auto split: Option.bind_splits)
    from "1.IH" [OF True a b] capture_frame_calls [OF a] show ?thesis
      by (rule prefix_order.trans [rotated])
  next
    case False
    with "1.prems" show ?thesis by (subst (asm) capture_loop.simps) auto
  qed
qed

lemma capture_body_calls: "capture_body n w = Some (avg, w') \<Longrightarrow> prefix (calls w) (calls w')"
  unfolding capture_body_def
  by (auto simp: Let_def split: Option.bind_splits if_splits
      dest!: init_calls init_mmap_calls start_stream_calls capture_loop_calls stop_stream_calls
      intro: prefix_order.trans)

lemma free_all_calls: "prefix (calls w) (calls (free_all w))"
  by (simp add: free_all_def log_call_def Let_def)

lemma capture_frames_calls:
  assumes "capture_frames interface n err w = Some (avg, err', w')"
  shows "prefix (calls w @ [Open interface]) (calls w')"
proof -
  define w1 where "w1 = open_device interface (w\<lparr>st := zero_state\<rparr>)"
  have c1: "calls w1 = calls w @ [Open interface]"
    by (simp add: w1_def open_device_def log_call_def set_quit_def Let_def)
  from assms have "\<exists>a w2. (if quit (st w1) = 0 then capture_body n w1 else Some (- 1, w1)) = Some (a, w2)
      \<and> w' = free_all w2"
    unfolding capture_frames_def w1_def by (auto simp: Let_def split: Option.bind_splits)
  then obtain a w2 where
    r: "(if quit (st w1) = 0 then capture_body n w1 else Some (- 1, w1)) = Some (a, w2)"
    and w': "w' = free_all w2"
    by blast
  from r have "prefix (calls w1) (calls w2)"
    by (auto split: if_splits dest: capture_body_calls)
  then have "prefix (calls w1) (calls w')"
    unfolding w' using free_all_calls prefix_order.trans by blast
  then show ?thesis by (simp add: c1)
qed

lemma ioctl_retry_Ok: "ioctl_retry (Ok f # rs) n = Some (Ok f, rs, Suc n)"
  by simp

lemma xioctl_Ok:
  "ioctl_results w = Ok f # rs \<Longrightarrow>
   xioctl request w = Some (0, f, w\<lparr>ioctl_results := rs,
       calls := calls w @ [Ioctl (device_fd (st w)) request]\<rparr>)"
  by (simp add: xioctl_def)

lemma xioctl_Failed:
  "ioctl_results w = Failed e # rs \<Longrightarrow> e \<noteq> EINTR \<Longrightarrow>
   xioctl request w = Some (- 1, Nothing, set_quit e (w\<lparr>ioctl_results := rs,
       calls := calls w @ [Ioctl (device_fd (st w)) request]\<rparr>))"
  by (simp add: xioctl_def)

section \<open>Validation of the capture count\<close>

text \<open>
  C7. A request for 0, a negative number or more than 20 captures is answered with the
  validation failure, the world untouched: no lookup, no \<^verbatim>\<open>open\<close>, no \<^verbatim>\<open>ioctl\<close>. A request
  for 1 to 20 captures (1 and 20 included) is never answered with the validation failure, and
  whatever it returns, the device lookup has been made.
\<close>

theorem capture_count_validated:
  assumes "authorized m" and "params m = Inr (video_interface, num_captures)"
  shows "(num_captures \<le> 0 \<or> 20 < num_captures \<longrightarrow>
            method_captureframes m w =
              Some (Failed_error ''Number of captures should be between 1 and 20.'' (- EINVAL), w))
       \<and> (1 \<le> num_captures \<and> num_captures \<le> 20 \<longrightarrow>
            (\<forall>msg r w'. method_captureframes m w \<noteq> Some (Failed_error msg r, w'))
          \<and> (\<forall>out w'. method_captureframes m w = Some (out, w') \<longrightarrow>
                prefix (calls w @ [Udev_lookup video_interface]) (calls w')))"
proof (intro conjI impI)
  assume "num_captures \<le> 0 \<or> 20 < num_captures"
  with assms show "method_captureframes m w =
      Some (Failed_error ''Number of captures should be between 1 and 20.'' (- EINVAL), w)"
    by (simp add: method_captureframes_def)
next
  assume ok: "1 \<le> num_captures \<and> num_captures \<le> 20"
  with assms show "\<forall>msg r w'. method_captureframes m w \<noteq> Some (Failed_error msg r, w')"
    by (auto simp: method_captureframes_def Let_def split: sum.splits Option.bind_splits)
next
  assume ok: "1 \<le> num_captures \<and> num_captures \<le> 20"
  show "\<forall>out w'. method_captureframes m w = Some (out, w') \<longrightarrow>
                prefix (calls w @ [Udev_lookup video_interface]) (calls w')"
  proof (intro allI impI)
    fix out w' assume r: "method_captureframes m w = Some (out, w')"
    let ?w1 = "log_call (Udev_lookup video_interface) w"
    show "prefix (calls w @ [Udev_lookup video_interface]) (calls w')"
    proof (cases "udev_result ?w1")
      case (Inl e)
      with r assms ok have "w' = ?w1"
        by (auto simp: method_captureframes_def Let_def)
      then show ?thesis by (simp add: log_call_def)
    next
      case (Inr devnode)
      with r assms ok obtain v e where "capture_frames devnode num_captures 0 ?w1 = Some (v, e, w')"
        by (auto simp: method_captureframes_def Let_def split: Option.bind_splits if_splits)
      from capture_frames_calls [OF this] have "prefix (calls ?w1) (calls w')"
        using prefix_order.trans by (metis prefix_def append.assoc)
      then show ?thesis by (simp add: log_call_def)
    qed
  qed
qed

theorem capture_count_validated_witness:
  "method_captureframes (capture_request 0) world_no_device =
     Some (Failed_error ''Number of captures should be between 1 and 20.'' (- EINVAL), world_no_device)
   \<and> method_captureframes (capture_request 21) world_no_device =
     Some (Failed_error ''Number of captures should be between 1 and 20.'' (- EINVAL), world_no_device)
   \<and> method_captureframes (capture_request (- 1)) world_no_device =
     Some (Failed_error ''Number of captures should be between 1 and 20.'' (- EINVAL), world_no_device)
   \<and> method_captureframes (capture_request 1) world_no_device
       \<noteq> Some (Failed_error ''Number of captures should be between 1 and 20.'' (- EINVAL), world_no_device)
   \<and> method_captureframes (capture_request 20) world_no_device
       \<noteq> Some (Failed_error ''Number of captures should be between 1 and 20.'' (- EINVAL), world_no_device)"
  using capture_count_validated [of "capture_request 0" video0 0 world_no_device]
    capture_count_validated [of "capture_request 21" video0 21 world_no_device]
    capture_count_validated [of "capture_request (- 1)" video0 "- 1" world_no_device]
    capture_count_validated [of "capture_request 1" video0 1 world_no_device]
    capture_count_validated [of "capture_request 20" video0 20 world_no_device]
  by (simp add: capture_request_def)

section \<open>Teardown after a failed mmap\<close>

text \<open>
  C3. \<^verbatim>\<open>free_all\<close> tests the buffer against \<^verbatim>\<open>NULL\<close>, but a failed \<^verbatim>\<open>mmap\<close> leaves
  \<^verbatim>\<open>MAP_FAILED\<close> in it: when the device opens and \<^verbatim>\<open>mmap\<close> fails, the teardown calls
  \<^verbatim>\<open>munmap\<close> on \<^verbatim>\<open>MAP_FAILED\<close>, a mapping that was never established.
\<close>

theorem munmap_after_failed_mmap:
  "map_option (\<lambda>(avg, err, w). (avg, err, calls w)) (capture_frames video0 5 0 world_mmap_fails) =
     Some (- 1, 1,
       [Open video0, Ioctl 3 VIDIOC_QUERYCAP, Ioctl 3 VIDIOC_S_PRIORITY, Ioctl 3 VIDIOC_S_FMT,
        Ioctl 3 VIDIOC_REQBUFS, Ioctl 3 VIDIOC_QUERYBUF, Mmap 38400 3 0,
        Close 3, Munmap MAP_FAILED 38400])"
  by (simp add: capture_frames_def world_mmap_fails_def setup_ok_def open_device_def log_call_def
      zero_state_def capture_body_def init_def init_mmap_def xioctl_Ok set_quit_def free_all_def
      V4L2_CAP_VIDEO_CAPTURE_def V4L2_CAP_STREAMING_def MAP_FAILED_def NULL_def Let_def)


section \<open>The average brightness\<close>

lemma rn64_numeral: "\<bar>numeral k :: int\<bar> \<le> 2 ^ 53 \<Longrightarrow> rn64 (numeral k) = numeral k"
  using rn64_of_int [of "numeral k"] by simp

lemma avg_loop_total:
  "0 \<le> i \<Longrightarrow>
   snd (snd (avg_loop vs n i lo hi t)) = foldl dadd t (map ((!) vs) [nat i..<nat n])"
proof (induction vs n i lo hi t rule: avg_loop.induct)
  case (1 vs n i lo hi t)
  show ?case
  proof (cases "i < n")
    case True
    with "1.prems" have u: "[nat i..<nat n] = nat i # [nat (i + 1)..<nat n]"
      by (simp add: upt_conv_Cons nat_add_distrib)
    from "1.prems" have p: "0 \<le> i + 1" by simp
    show ?thesis
      using True "1.IH"(1) [OF True _ p] "1.IH"(2) [OF True _ _ p] "1.IH"(3) [OF True _ _ p]
      by (subst avg_loop.simps) (simp add: u)
  next
    case False
    then show ?thesis by (subst avg_loop.simps) simp
  qed
qed

lemma avg_loop_equal:
  assumes "\<forall>k. i \<le> k \<and> k < n \<longrightarrow> vs ! nat k = vs ! nat lo \<and> vs ! nat k = vs ! nat hi"
  shows "fst (avg_loop vs n i lo hi t) = lo \<and> fst (snd (avg_loop vs n i lo hi t)) = hi"
  using assms
proof (induction vs n i lo hi t rule: avg_loop.induct)
  case (1 vs n i lo hi t)
  show ?case
  proof (cases "i < n")
    case True
    with "1.prems" have e: "vs ! nat i = vs ! nat lo" "vs ! nat i = vs ! nat hi" by auto
    have "\<forall>k. i + 1 \<le> k \<and> k < n \<longrightarrow> vs ! nat k = vs ! nat lo \<and> vs ! nat k = vs ! nat hi"
      using "1.prems" by auto
    from "1.IH"(3) [OF True _ _ this] e True show ?thesis
      by (subst (1 2) avg_loop.simps) simp
  next
    case False
    then show ?thesis by (subst (1 2) avg_loop.simps) simp
  qed
qed

lemma foldl_dadd_zeros: "\<forall>v \<in> set vs. v = 0 \<Longrightarrow> foldl dadd 0 vs = 0"
  by (induction vs) (simp_all add: dadd_def rn64_zero)

lemma avg_loop_full:
  "snd (snd (avg_loop vs (int (length vs)) 0 0 0 0)) = foldl dadd 0 vs"
  using avg_loop_total [of 0 vs "int (length vs)" 0 0 0] by (simp add: map_nth)

lemma compute_avg_small:
  assumes "brightness_values (st w) = Some vs" and "length vs < 3"
  shows "compute_avg_brightness (int (length vs)) w = mean_div_255 vs"
proof -
  obtain lo hi t where l: "avg_loop vs (int (length vs)) 0 0 0 0 = (lo, hi, t)"
    by (metis prod_cases3)
  with avg_loop_full [of vs] have t: "t = foldl dadd 0 vs" by simp
  have c: "compute_avg_brightness (int (length vs)) w =
      (if length vs = 0 then None else Some (ddiv (ddiv t 255) (real (length vs))))"
    using assms by (simp add: compute_avg_brightness_def l Let_def)
  consider "vs = []" | a where "vs = [a]" | a b where "vs = [a, b]"
    using assms(2) by (cases vs rule: list.exhaust; simp; case_tac x22; simp; case_tac x22a; simp)
  then show ?thesis
  proof cases
    case 1
    with c show ?thesis by (simp add: mean_div_255_def)
  next
    case 2
    have "rn64 (rn64 (rn64 a / 255)) = rn64 (rn64 (rn64 a) / 255)"
      by (simp only: rn64_idem)
    with c t 2 show ?thesis by (simp add: mean_div_255_def ddiv_def dadd_def)
  next
    case 3
    define T where "T = rn64 (rn64 a + b)"
    have i: "rn64 T = T" unfolding T_def by (rule rn64_idem)
    have h: "rn64 (T / 2) = T / 2" using rn64_half [of T] i by simp
    have "T / 2 / 255 = T / 255 / 2" by simp
    then have "rn64 (rn64 (T / 2) / 255) = rn64 (T / 255 / 2)" unfolding h by (rule arg_cong)
    also have "\<dots> = rn64 (T / 255) / 2" by (rule rn64_half)
    also have "\<dots> = rn64 (rn64 (T / 255) / 2)"
      using rn64_half [of "rn64 (T / 255)"] rn64_idem [of "T / 255"] by simp
    finally have "rn64 (rn64 (rn64 (rn64 a + b) / 255) / 2) = rn64 (rn64 (rn64 (rn64 a + b) / 2) / 255)"
      unfolding T_def by simp
    with c t 3 show ?thesis by (simp add: mean_div_255_def ddiv_def dadd_def)
  qed
qed

lemma compute_avg_zeros:
  assumes "brightness_values (st w) = Some vs" and "vs \<noteq> []" and "\<forall>v \<in> set vs. v = 0"
  shows "compute_avg_brightness (int (length vs)) w = Some 0"
proof -
  obtain lo hi t where l: "avg_loop vs (int (length vs)) 0 0 0 0 = (lo, hi, t)"
    by (metis prod_cases3)
  with avg_loop_full [of vs] foldl_dadd_zeros [OF assms(3)] have t: "t = 0" by simp
  show ?thesis
    using assms(1,2) by (simp add: compute_avg_brightness_def l t Let_def ddiv_def rn64_zero)
qed

lemma avg_loop_example: "avg_loop [10, 90, 50, 60, 40] 5 0 0 0 0 = (0, 1, 250)"
  by (simp add: avg_loop.simps dadd_def rn64_numeral)

lemma round_10_17: "rn64 (10 / 17) = 5298352502788819 / 9007199254740992"
  by (simp add: rn64_def lg2.simps pow2_def round_even_def Let_def)

lemma round_10_17_3:
  "rn64 (5298352502788819 / 27021597764222976) = 7064470003718425 / 36028797018963968"
  by (simp add: rn64_def lg2.simps pow2_def round_even_def Let_def)

lemma round_10_51: "rn64 (10 / 51) = 7064470003718425 / 36028797018963968"
  by (simp add: rn64_def lg2.simps pow2_def round_even_def Let_def)

lemma compute_avg_example:
  assumes "brightness_values (st w) = Some [10, 90, 50, 60, 40]"
  shows "compute_avg_brightness 5 w = Some (7064470003718425 / 36028797018963968)"
  using assms
  by (simp add: compute_avg_brightness_def avg_loop_example Let_def dsub_def dadd_def ddiv_def
      rn64_numeral round_10_17 round_10_17_3)

lemma spec_example:
  "ddiv (ddiv (dadd (dadd 50 60) 40) 3) 255 = 7064470003718425 / 36028797018963968"
  by (simp add: dadd_def ddiv_def rn64_numeral round_10_51)

text \<open>
  The scan leaves \<open>lowest\<close> at a smallest and \<open>highest\<close> at a largest of the samples: the
  \<^verbatim>\<open>else\<close> before the second test loses nothing, since a sample below the lowest so far is
  not above the highest so far.
\<close>

lemma avg_loop_extremes:
  assumes "1 \<le> i" and "i \<le> n" and "n \<le> int (length vs)"
    and "vs ! nat lo = Min (set (take (nat i) vs))"
    and "vs ! nat hi = Max (set (take (nat i) vs))"
  shows "vs ! nat (fst (avg_loop vs n i lo hi t)) = Min (set (take (nat n) vs))
       \<and> vs ! nat (fst (snd (avg_loop vs n i lo hi t))) = Max (set (take (nat n) vs))"
  using assms
proof (induction vs n i lo hi t rule: avg_loop.induct)
  case (1 vs n i lo hi t)
  show ?case
  proof (cases "i < n")
    case False
    with "1.prems" have "i = n" by simp
    with "1.prems" show ?thesis by (subst (1 2) avg_loop.simps) simp
  next
    case True
    define A where "A = set (take (nat i) vs)"
    define x where "x = vs ! nat i"
    have len: "nat i < length vs" using True "1.prems" by simp
    have ne: "A \<noteq> {}" "finite A" using "1.prems"(1) len by (auto simp: A_def)
    have n1: "nat (i + 1) = Suc (nat i)" using "1.prems"(1) by (simp add: nat_add_distrib)
    have s: "set (take (nat (i + 1)) vs) = insert x A"
      using len by (simp add: n1 take_Suc_conv_app_nth A_def x_def)
    have mn: "Min (insert x A) = min x (Min A)" and mx: "Max (insert x A) = max x (Max A)"
      using ne by simp_all
    have le: "Min A \<le> Max A" using ne by simp
    have p: "1 \<le> i + 1" "i + 1 \<le> n" using True "1.prems"(1) by simp_all
    note lo = "1.prems"(4) [folded A_def] and hi = "1.prems"(5) [folded A_def]
    show ?thesis
    proof (cases "x < vs ! nat lo")
      case a: True
      have "vs ! nat i = Min (set (take (nat (i + 1)) vs))"
        using a lo by (simp add: s mn x_def [symmetric])
      moreover have "vs ! nat hi = Max (set (take (nat (i + 1)) vs))"
        using a lo hi le by (simp add: s mx)
      ultimately show ?thesis
        using "1.IH"(1) [OF True _ p "1.prems"(3)] True a
        by (subst (1 2) avg_loop.simps) (simp add: x_def)
    next
      case a: False
      show ?thesis
      proof (cases "x > vs ! nat hi")
        case b: True
        have "vs ! nat lo = Min (set (take (nat (i + 1)) vs))"
          using a lo by (simp add: s mn)
        moreover have "vs ! nat i = Max (set (take (nat (i + 1)) vs))"
          using b hi by (simp add: s mx x_def [symmetric])
        ultimately show ?thesis
          using "1.IH"(2) [OF True _ _ p "1.prems"(3)] True a b
          by (subst (1 2) avg_loop.simps) (simp add: x_def)
      next
        case b: False
        have "vs ! nat lo = Min (set (take (nat (i + 1)) vs))"
          using a lo by (simp add: s mn)
        moreover have "vs ! nat hi = Max (set (take (nat (i + 1)) vs))"
          using b hi by (simp add: s mx)
        ultimately show ?thesis
          using "1.IH"(3) [OF True _ _ p "1.prems"(3)] True a b
          by (subst (1 2) avg_loop.simps) (simp add: x_def)
      qed
    qed
  qed
qed

lemma avg_loop_first:
  "0 < n \<Longrightarrow> avg_loop vs n 0 0 0 t = avg_loop vs n 1 0 0 (dadd t (vs ! 0))"
  by (subst avg_loop.simps) simp

lemma avg_loop_min_max:
  assumes "vs \<noteq> []"
  shows "vs ! nat (fst (avg_loop vs (int (length vs)) 0 0 0 0)) = Min (set vs)
       \<and> vs ! nat (fst (snd (avg_loop vs (int (length vs)) 0 0 0 0))) = Max (set vs)"
proof -
  have n: "0 < int (length vs)" "(1 :: int) \<le> int (length vs)" using assms by (simp_all add: Suc_le_eq)
  have t: "take (Suc 0) vs = [vs ! 0]" using assms by (cases vs) simp_all
  have "vs ! nat 0 = Min (set (take (nat 1) vs))" "vs ! nat 0 = Max (set (take (nat 1) vs))"
    by (simp_all add: t)
  from avg_loop_extremes [OF _ n(2) _ this, of "dadd 0 (vs ! 0)"] show ?thesis
    by (simp add: avg_loop_first [OF n(1)])
qed

lemma compute_avg_trimmed:
  assumes "brightness_values (st w) = Some vs" and "3 \<le> length vs" and "foldl dadd 0 vs \<noteq> 0"
  shows "compute_avg_brightness (int (length vs)) w =
     Some (ddiv (ddiv (dsub (foldl dadd 0 vs) (dadd (Max (set vs)) (Min (set vs)))) 255)
             (real (length vs - 2)))"
proof -
  obtain lo hi t where l: "avg_loop vs (int (length vs)) 0 0 0 0 = (lo, hi, t)"
    by (metis prod_cases3)
  with avg_loop_full [of vs] have t: "t = foldl dadd 0 vs" by simp
  have ne: "vs \<noteq> []" using assms(2) by auto
  from avg_loop_min_max [OF ne] l have e: "vs ! nat lo = Min (set vs)" "vs ! nat hi = Max (set vs)"
    by simp_all
  have "real_of_int (int (length vs) - 2) = real (length vs - 2)" using assms(2) by simp
  then show ?thesis
    using assms by (simp add: compute_avg_brightness_def l t e Let_def)
qed

lemma avg_loop_outlier: "avg_loop [10, 20, 90] 3 0 0 0 0 = (0, 2, 120)"
  by (simp add: avg_loop.simps dadd_def rn64_numeral)

lemma round_4_51: "rn64 (4 / 51) = 1412894000743685 / 18014398509481984"
  by (simp add: rn64_def lg2.simps pow2_def round_even_def Let_def)

lemma round_8_51: "rn64 (8 / 51) = 1412894000743685 / 9007199254740992"
  by (simp add: rn64_def lg2.simps pow2_def round_even_def Let_def)

lemma compute_avg_outlier:
  assumes "brightness_values (st w) = Some [10, 20, 90]"
  shows "compute_avg_brightness 3 w = Some (1412894000743685 / 18014398509481984)"
  using assms
  by (simp add: compute_avg_brightness_def avg_loop_outlier Let_def dsub_def dadd_def ddiv_def
      rn64_numeral round_4_51 rn64_idem [of "4 / 51", unfolded round_4_51])

lemma trimmed_outlier: "ddiv 20 255 = 1412894000743685 / 18014398509481984"
  by (simp add: ddiv_def round_4_51)

lemma mean_outlier: "mean_div_255 [10, 20, 90] = Some (1412894000743685 / 9007199254740992)"
  by (simp add: mean_div_255_def dadd_def ddiv_def rn64_numeral round_8_51)

text \<open>
  C5. The samples 10, 90, 50, 60, 40 give exactly the double that \<^verbatim>\<open>(50+60+40)/3/255\<close>
  evaluates to (the double nearest to 10/51): the scan ends with the lowest index at the sample
  10 and the highest at the sample 90, and these two are taken off the total. In general, with
  3 samples or more and a total other than 0, the largest and the smallest sample are taken off
  the total, which is divided by 255 and by the number of samples less 2; the samples 10, 20, 90
  give 20/255, which is not their plain mean divided by 255. Fewer than 3 samples are not
  trimmed: the result is their plain mean divided by 255 (none for no sample at all). Samples
  that are all zero give exactly 0.
\<close>

theorem trimmed_mean:
  "(brightness_values (st w) = Some [10, 90, 50, 60, 40] \<longrightarrow>
      avg_loop [10, 90, 50, 60, 40] 5 0 0 0 0 = (0, 1, 250)
      \<and> compute_avg_brightness 5 w = Some (ddiv (ddiv (dadd (dadd 50 60) 40) 3) 255)
      \<and> compute_avg_brightness 5 w = Some (7064470003718425 / 36028797018963968))
   \<and> (brightness_values (st w) = Some vs \<and> 3 \<le> length vs \<and> foldl dadd 0 vs \<noteq> 0 \<longrightarrow>
      compute_avg_brightness (int (length vs)) w =
        Some (ddiv (ddiv (dsub (foldl dadd 0 vs) (dadd (Max (set vs)) (Min (set vs)))) 255)
                (real (length vs - 2))))
   \<and> (brightness_values (st w) = Some [10, 20, 90] \<longrightarrow>
      compute_avg_brightness 3 w = Some (ddiv 20 255)
      \<and> compute_avg_brightness 3 w \<noteq> mean_div_255 [10, 20, 90])
   \<and> (brightness_values (st w) = Some vs \<and> length vs < 3 \<longrightarrow>
      compute_avg_brightness (int (length vs)) w = mean_div_255 vs)
   \<and> (brightness_values (st w) = Some vs \<and> vs \<noteq> [] \<and> (\<forall>v \<in> set vs. v = 0) \<longrightarrow>
      compute_avg_brightness (int (length vs)) w = Some 0)"
proof (intro conjI impI)
  assume "brightness_values (st w) = Some [10, 90, 50, 60, 40]"
  from compute_avg_example [OF this]
  show "compute_avg_brightness 5 w = Some (ddiv (ddiv (dadd (dadd 50 60) 40) 3) 255)"
    "compute_avg_brightness 5 w = Some (7064470003718425 / 36028797018963968)"
    by (simp_all add: spec_example)
  show "avg_loop [10, 90, 50, 60, 40] 5 0 0 0 0 = (0, 1, 250)" by (rule avg_loop_example)
next
  assume "brightness_values (st w) = Some vs \<and> 3 \<le> length vs \<and> foldl dadd 0 vs \<noteq> 0"
  then show "compute_avg_brightness (int (length vs)) w =
        Some (ddiv (ddiv (dsub (foldl dadd 0 vs) (dadd (Max (set vs)) (Min (set vs)))) 255)
                (real (length vs - 2)))"
    by (intro compute_avg_trimmed) simp_all
next
  assume "brightness_values (st w) = Some [10, 20, 90]"
  from compute_avg_outlier [OF this]
  show "compute_avg_brightness 3 w = Some (ddiv 20 255)"
    "compute_avg_brightness 3 w \<noteq> mean_div_255 [10, 20, 90]"
    by (simp_all add: trimmed_outlier mean_outlier)
next
  assume "brightness_values (st w) = Some vs \<and> length vs < 3"
  then show "compute_avg_brightness (int (length vs)) w = mean_div_255 vs"
    by (intro compute_avg_small) simp_all
next
  assume "brightness_values (st w) = Some vs \<and> vs \<noteq> [] \<and> (\<forall>v \<in> set vs. v = 0)"
  then show "compute_avg_brightness (int (length vs)) w = Some 0"
    by (intro compute_avg_zeros) simp_all
qed

theorem trimmed_mean_witness:
  "compute_avg_brightness 5 (world_with_samples [10, 90, 50, 60, 40])
     = Some (ddiv (ddiv (dadd (dadd 50 60) 40) 3) 255)
   \<and> compute_avg_brightness 5 (world_with_samples [10, 90, 50, 60, 40])
     = Some (ddiv (ddiv (dsub 250 (dadd 90 10)) 255) 3)
   \<and> compute_avg_brightness 3 (world_with_samples [10, 20, 90]) = Some (ddiv 20 255)
   \<and> compute_avg_brightness 3 (world_with_samples [10, 20, 90]) \<noteq> mean_div_255 [10, 20, 90]
   \<and> compute_avg_brightness 2 (world_with_samples [10, 90]) = mean_div_255 [10, 90]
   \<and> compute_avg_brightness 3 (world_with_samples [0, 0, 0]) = Some 0"
proof -
  have b: "brightness_values (st (world_with_samples xs)) = Some xs" for xs
    by (simp add: world_with_samples_def)
  have t: "dadd (dadd (dadd (dadd (dadd 0 10) 90) 50) 60) 40 = 250"
    by (simp add: dadd_def rn64_numeral)
  have m: "Max (set [10, 90, 50, 60, 40 :: real]) = 90" "Min (set [10, 90, 50, 60, 40 :: real]) = 10"
    by simp_all
  let ?L = "[10, 90, 50, 60, 40] :: double list"
  note T = trimmed_mean [of "world_with_samples ?L" ?L]
  have h: "brightness_values (st (world_with_samples ?L)) = Some ?L \<and> 3 \<le> length ?L
      \<and> foldl dadd 0 ?L \<noteq> 0"
    by (simp add: b t)
  from T b have 1: "compute_avg_brightness 5 (world_with_samples ?L)
     = Some (ddiv (ddiv (dadd (dadd 50 60) 40) 3) 255)"
    by blast
  from T h have "compute_avg_brightness (int (length ?L)) (world_with_samples ?L) =
        Some (ddiv (ddiv (dsub (foldl dadd 0 ?L) (dadd (Max (set ?L)) (Min (set ?L)))) 255)
                (real (length ?L - 2)))"
    by blast
  then have 5: "compute_avg_brightness 5 (world_with_samples ?L)
     = Some (ddiv (ddiv (dsub 250 (dadd 90 10)) 255) 3)"
    by (simp add: t m)
  from trimmed_mean [of "world_with_samples [10, 20, 90]" "[]"] b
  have 2: "compute_avg_brightness 3 (world_with_samples [10, 20, 90]) = Some (ddiv 20 255)"
    "compute_avg_brightness 3 (world_with_samples [10, 20, 90]) \<noteq> mean_div_255 [10, 20, 90]"
    by blast+
  from trimmed_mean [of "world_with_samples [10, 90]" "[10, 90]"]
  have 3: "compute_avg_brightness 2 (world_with_samples [10, 90]) = mean_div_255 [10, 90]"
    by (simp add: b)
  from trimmed_mean [of "world_with_samples [0, 0, 0]" "[0, 0, 0]"]
  have 4: "compute_avg_brightness 3 (world_with_samples [0, 0, 0]) = Some 0"
    by (simp add: b)
  from 1 2 3 4 5 show ?thesis by blast
qed


section \<open>Samples that are all equal\<close>

lemma foldl_dadd_replicate_Suc:
  "foldl dadd 0 (replicate (Suc k) v) = dadd (foldl dadd 0 (replicate k v)) v"
proof -
  have "replicate (Suc k) v = replicate k v @ [v]" by (simp add: replicate_append_same)
  then show ?thesis by (simp only: foldl_append) simp
qed

text \<open>The sum of \<open>k\<close> copies of \<open>v\<close> is \<open>k * v\<close> up to \<open>k\<^sup>2\<close> roundings.\<close>

lemma sum_replicate_err:
  assumes "0 < v" and "real k \<le> 2 ^ 53"
  shows "\<bar>foldl dadd 0 (replicate k v) - real k * v\<bar> \<le> (real k)\<^sup>2 / 2 ^ 53 * v"
  using assms(2)
proof (induction k)
  case 0
  then show ?case by simp
next
  case (Suc k)
  define S where "S = foldl dadd 0 (replicate k v)"
  define u :: real where "u = 1 / 2 ^ 53"
  define A where "A = real k * v"
  define B where "B = (real k)\<^sup>2 * u * v"
  have k: "real k \<le> 2 ^ 53" using Suc.prems by simp
  have ku: "real k * u \<le> 1" using k by (simp add: u_def)
  have u: "0 < u" by (simp add: u_def)
  have A: "0 \<le> A" using assms(1) by (simp add: A_def)
  from Suc.IH [OF k] have ih: "\<bar>S - A\<bar> \<le> B"
    by (simp add: S_def u_def A_def B_def)
  have "B = real k * u * A" by (simp add: A_def B_def power2_eq_square)
  also have "\<dots> \<le> 1 * A" using ku A by (intro mult_right_mono) simp_all
  finally have BA: "B \<le> A" by simp
  have r: "\<bar>rn64 (S + v) - (S + v)\<bar> \<le> \<bar>S + v\<bar> * u"
    using rn64_err [of "S + v"] by (simp add: u_def)
  have "\<bar>S + v\<bar> \<le> A + v + B" using ih assms(1) A by linarith
  also have "\<dots> \<le> 2 * A + v" using BA by simp
  finally have "\<bar>S + v\<bar> * u \<le> (2 * A + v) * u"
    using u by (intro mult_right_mono) simp_all
  with r ih have "\<bar>rn64 (S + v) - (A + v)\<bar> \<le> B + (2 * A + v) * u" by linarith
  also have "B + (2 * A + v) * u = (real (Suc k))\<^sup>2 * u * v"
    by (simp add: A_def B_def power2_eq_square algebra_simps)
  finally have fin: "\<bar>rn64 (S + v) - (A + v)\<bar> \<le> (real (Suc k))\<^sup>2 / 2 ^ 53 * v"
    by (simp add: u_def)
  have e1: "foldl dadd 0 (replicate (Suc k) v) = rn64 (S + v)"
    by (simp only: foldl_dadd_replicate_Suc dadd_def S_def)
  have e2: "real (Suc k) * v = A + v" by (simp add: A_def algebra_simps)
  from fin show ?case by (simp only: e1 e2)
qed


lemma approx_div:
  fixes a b c eps :: real
  assumes "\<bar>a - b\<bar> \<le> eps * b" and "0 < c"
  shows "\<bar>a / c - b / c\<bar> \<le> eps * (b / c)"
proof -
  have "a / c - b / c = (a - b) / c" by (simp add: diff_divide_distrib)
  then have "\<bar>a / c - b / c\<bar> = \<bar>a - b\<bar> / c"
    using assms(2) by simp
  also have "\<dots> \<le> eps * b / c" using assms by (intro divide_right_mono) simp_all
  finally show ?thesis by simp
qed

lemma equal_samples_loop:
  assumes "0 \<le> n"
  shows "avg_loop (replicate (nat n) v) n 0 0 0 0 = (0, 0, foldl dadd 0 (replicate (nat n) v))"
proof -
  let ?vs = "replicate (nat n) v"
  have "\<forall>k. 0 \<le> k \<and> k < n \<longrightarrow> ?vs ! nat k = ?vs ! nat 0 \<and> ?vs ! nat k = ?vs ! nat 0"
    by auto
  from avg_loop_equal [OF this]
  have "fst (avg_loop ?vs n 0 0 0 0) = 0" "fst (snd (avg_loop ?vs n 0 0 0 0)) = 0" by simp_all
  moreover have "snd (snd (avg_loop ?vs n 0 0 0 0)) = foldl dadd 0 ?vs"
    using avg_loop_full [of ?vs] assms by simp
  ultimately show ?thesis by (metis prod.collapse)
qed

lemma equal_samples_value:
  assumes "3 \<le> n" and "n < 2 ^ 31" and "0 < v"
    and "brightness_values (st w) = Some (replicate (nat n) v)"
  shows "compute_avg_brightness n w =
      Some (ddiv (ddiv (dsub (foldl dadd 0 (replicate (nat n) v)) (dadd v v)) 255) (of_int (n - 2)))"
    and "\<bar>ddiv (ddiv (dsub (foldl dadd 0 (replicate (nat n) v)) (dadd v v)) 255) (of_int (n - 2))
          - v / 255\<bar> \<le> (of_int n + 14) / 2 ^ 53 * (v / 255)"
proof -
  define k where "k = nat n"
  define S where "S = foldl dadd 0 (replicate k v)"
  define u :: real where "u = 1 / 2 ^ 53"
  have n: "of_int n = real k" "n = int k" using assms(1) by (simp_all add: k_def)
  have k3: "3 \<le> real k" using assms(1) by (simp add: k_def)
  have "real k < 2 ^ 31" using assms(2) unfolding n(2) by (metis of_nat_less_numeral_power_cancel_iff of_int_of_nat_eq of_nat_less_iff nat_int int_nat_eq)
  then have kb: "real k \<le> 2 ^ 31" by simp
  have u: "0 < u" by (simp add: u_def)
  have ku: "real k * u \<le> 1 / 2 ^ 22"
  proof -
    have "real k * u \<le> 2 ^ 31 * u" using kb u by (intro mult_right_mono) simp_all
    then show ?thesis by (simp add: u_def)
  qed
  have "real k \<le> 2 ^ 53" using kb by simp
  from sum_replicate_err [OF assms(3) this]
  have Se: "\<bar>S - real k * v\<bar> \<le> (real k)\<^sup>2 * u * v" by (simp add: S_def u_def)
  have "(real k)\<^sup>2 * u * v = real k * u * (real k * v)" by (simp add: power2_eq_square)
  also have "\<dots> \<le> 1 / 2 ^ 22 * (real k * v)"
    using ku assms(3) by (intro mult_right_mono) simp_all
  also have "\<dots> < real k * v" using assms(3) k3 by simp
  finally have "0 < S" using Se by linarith
  then have S0: "S \<noteq> 0" by simp
  have loop: "avg_loop (replicate k v) n 0 0 0 0 = (0, 0, S)"
    using equal_samples_loop [of n v] assms(1) by (simp add: k_def S_def)
  have k0: "0 < k" using assms(1) by (simp add: k_def)
  show "compute_avg_brightness n w =
      Some (ddiv (ddiv (dsub (foldl dadd 0 (replicate (nat n) v)) (dadd v v)) 255) (of_int (n - 2)))"
    using assms(1,4) S0 k0
    by (simp add: compute_avg_brightness_def k_def [symmetric] loop Let_def S_def [symmetric])
       (simp add: k_def)
  define b where "b = (real k - 2) * v"
  define e1 where "e1 = (real k + 8) * u"
  have b: "0 < b" using k3 assms(3) by (simp add: b_def)
  have e1: "0 \<le> e1" "e1 + 4 * u \<le> 1"
  proof -
    show "0 \<le> e1" using u by (simp add: e1_def)
    have "e1 + 4 * u = real k * u + 12 * u" by (simp add: e1_def algebra_simps)
    also have "\<dots> \<le> 1 / 2 ^ 22 + 12 * u" using ku by simp
    also have "\<dots> \<le> 1" by (simp add: u_def)
    finally show "e1 + 4 * u \<le> 1" .
  qed
  have D: "\<bar>rn64 (v + v) - 2 * v\<bar> \<le> 2 * v * u"
    using rn64_err [of "v + v"] assms(3) by (simp add: u_def)
  have "((real k)\<^sup>2 + 2) \<le> (real k + 8) * (real k - 2)"
    using k3 by (simp add: power2_eq_square algebra_simps)
  then have "((real k)\<^sup>2 + 2) * (u * v) \<le> (real k + 8) * (real k - 2) * (u * v)"
    using u assms(3) by (intro mult_right_mono) simp_all
  then have "(real k)\<^sup>2 * u * v + 2 * v * u \<le> e1 * b"
    by (simp add: e1_def b_def algebra_simps)
  with Se D have X: "\<bar>(S - rn64 (v + v)) - b\<bar> \<le> e1 * b"
    unfolding b_def by (simp add: algebra_simps abs_if split: if_splits)
  from rn64_approx [OF X] b e1 u
  have T: "\<bar>rn64 (S - rn64 (v + v)) - b\<bar> \<le> (e1 + 2 * u) * b"
    by (simp add: u_def)
  from approx_div [OF T, of 255]
  have "\<bar>rn64 (S - rn64 (v + v)) / 255 - b / 255\<bar> \<le> (e1 + 2 * u) * (b / 255)" by simp
  from rn64_approx [OF this] b e1 u
  have Q: "\<bar>rn64 (rn64 (S - rn64 (v + v)) / 255) - b / 255\<bar> \<le> (e1 + 2 * u + 2 * u) * (b / 255)"
    by (simp add: u_def)
  define c where "c = real k - 2"
  have k2: "0 < c" using k3 by (simp add: c_def)
  have "b / 255 / c = c * (v / 255) / c" by (simp add: b_def c_def)
  also have "\<dots> = v / 255" using k2 by simp
  finally have bq: "b / 255 / c = v / 255" .
  have "\<bar>rn64 (rn64 (S - rn64 (v + v)) / 255) / c - v / 255\<bar>
      \<le> (e1 + 2 * u + 2 * u) * (v / 255)"
    using approx_div [OF Q k2] unfolding bq .
  from rn64_approx [OF this] assms(3) e1 u
  have "\<bar>rn64 (rn64 (rn64 (S - rn64 (v + v)) / 255) / c) - v / 255\<bar>
      \<le> (e1 + 2 * u + 2 * u + 2 * u) * (v / 255)"
    by (simp add: u_def)
  moreover have "e1 + 2 * u + 2 * u + 2 * u = (real k + 14) / 2 ^ 53"
    by (simp add: e1_def u_def algebra_simps)
  moreover have "(of_int (n - 2) :: real) = c" using n(1) by (simp add: c_def)
  ultimately show "\<bar>ddiv (ddiv (dsub (foldl dadd 0 (replicate (nat n) v)) (dadd v v)) 255) (of_int (n - 2))
          - v / 255\<bar> \<le> (of_int n + 14) / 2 ^ 53 * (v / 255)"
    by (simp only: ddiv_def dsub_def dadd_def S_def k_def n(1))
qed


lemma tenth_loop:
  "avg_loop [tenth, tenth, tenth] 3 0 0 0 0 = (0, 0, 1351079888211149 / 4503599627370496)"
  by (simp add: avg_loop.simps dadd_def tenth_def rn64_def lg2.simps pow2_def round_even_def Let_def)

lemma tenth_avg:
  "compute_avg_brightness 3 (world_with_samples [tenth, tenth, tenth])
     = Some (3617008641903835 / 9223372036854775808)"
  by (simp add: compute_avg_brightness_def world_with_samples_def tenth_loop Let_def)
     (simp add: dsub_def dadd_def ddiv_def tenth_def rn64_def lg2.simps pow2_def round_even_def
       Let_def)

lemma tenth_div: "ddiv tenth 255 = 1808504320951917 / 4611686018427387904"
  by (simp add: ddiv_def tenth_def rn64_def lg2.simps pow2_def round_even_def Let_def)

text \<open>
  C10 as stated fails in double arithmetic: three samples equal to the double nearest to 0.1
  do not give that double divided by 255, neither the rounded quotient nor the exact one.
\<close>

theorem equal_samples_counterexample:
  "compute_avg_brightness 3 (world_with_samples [tenth, tenth, tenth]) \<noteq> Some (ddiv tenth 255)
   \<and> compute_avg_brightness 3 (world_with_samples [tenth, tenth, tenth]) \<noteq> Some (tenth / 255)"
  by (simp add: tenth_avg tenth_div) (simp add: tenth_def)

text \<open>
  C10, amended. For \<open>3 \<le> n\<close> (and \<open>n\<close> a C \<^verbatim>\<open>int\<close>) samples all equal to a positive \<open>v\<close>, the
  scan leaves both the lowest and the highest index at 0, so the sample subtracted twice is \<open>v\<close>
  itself and the divisor is \<open>n - 2\<close>: the result is \<open>((s - (v + v)) / 255) / (n - 2)\<close>, with \<open>s\<close> the
  sum of the \<open>n\<close> samples, every operation rounded to a double. This is \<open>v / 255\<close> up to a
  relative error of \<open>(n + 14) * 2 ^ - 53\<close>, not always \<open>v / 255\<close> exactly.
\<close>

theorem equal_samples:
  assumes "3 \<le> n" and "n < 2 ^ 31" and "0 < v"
    and "brightness_values (st w) = Some (replicate (nat n) v)"
  shows "avg_loop (replicate (nat n) v) n 0 0 0 0 = (0, 0, foldl dadd 0 (replicate (nat n) v))
       \<and> compute_avg_brightness n w =
           Some (ddiv (ddiv (dsub (foldl dadd 0 (replicate (nat n) v)) (dadd v v)) 255)
                   (of_int (n - 2)))
       \<and> (\<exists>r. compute_avg_brightness n w = Some r
              \<and> \<bar>r - v / 255\<bar> \<le> (of_int n + 14) / 2 ^ 53 * (v / 255))"
  using equal_samples_loop [of n v] equal_samples_value [OF assms] assms(1) by simp

theorem equal_samples_witness:
  "\<exists>r. compute_avg_brightness 3 (world_with_samples [tenth, tenth, tenth]) = Some r
       \<and> \<bar>r - tenth / 255\<bar> \<le> (of_int 3 + 14) / 2 ^ 53 * (tenth / 255)"
proof -
  have h: "brightness_values (st (world_with_samples [tenth, tenth, tenth])) = Some (replicate (nat 3) tenth)"
    by (simp add: world_with_samples_def numeral_3_eq_3)
  have p: "0 < tenth" by (simp add: tenth_def)
  have a: "(3 :: int) \<le> 3" and b: "(3 :: int) < 2 ^ 31" by simp_all
  from equal_samples [OF a b p h] show ?thesis by blast
qed


section \<open>A frame that fails\<close>


lemma answers_st [simp]: "answers (w\<lparr>st := s\<rparr>) = answers w"
  by (simp add: answers_def)

lemma answers_log_call [simp]: "answers (log_call c w) = answers w"
  by (simp add: answers_def log_call_def)

lemma answers_set_quit [simp]: "answers (set_quit q w) = answers w"
  by (simp add: answers_def set_quit_def)

lemma answers_calls [simp]: "answers (w\<lparr>calls := c\<rparr>) = answers w"
  by (simp add: answers_def)

lemma answers_frame [simp]: "answers (w\<lparr>frame := f\<rparr>) = answers w"
  by (simp add: answers_def)




































section \<open>Order and early exit of a wake-up\<close>






lemma bus_process_done:
  assumes "\<forall>p \<in> set ps. 0 < p"
  shows "bus_process (ps @ 0 # rest) q = Some (q, rest)"
  using assms by (induction ps arbitrary: q) (auto simp: Let_def)









section \<open>The exit status\<close>

lemma main_poll_fails: "map_option fst (main daemon_poll_fails) = Some EXIT_FAILURE"
  by (simp add: main_def daemon_poll_fails_def daemon_idle_def bus_cb_def poll_order_def
      LEAVE_W_ERR_def EINTR_def no_wakeup_def)

lemma main_sigterm:
  "map_option (\<lambda>(e, d). (e, handled d)) (main daemon_sigterm) = Some (EXIT_SUCCESS, [BUS, SIGNAL])"
  by (simp add: main_def daemon_sigterm_def daemon_idle_def bus_cb_def poll_order_def handle_def
      signal_cb_def LEAVE_W_ERR_def SIGNAL_RCV_def EINTR_def ready_sigterm_def)

text \<open>
  C4. When the connection to the system bus fails, or the object cannot be installed, or the
  name cannot be acquired, \<^verbatim>\<open>main\<close> jumps to \<^verbatim>\<open>finish\<close> with the flag still 0, and returns
  \<^verbatim>\<open>EXIT_SUCCESS\<close>, which is 0.
\<close>

theorem startup_failure_exit:
  "map_option fst (main daemon_no_bus) = Some EXIT_SUCCESS
   \<and> map_option fst (main daemon_no_vtable) = Some EXIT_SUCCESS
   \<and> map_option fst (main daemon_no_name) = Some EXIT_SUCCESS
   \<and> EXIT_SUCCESS = 0"
  by (simp add: main_def daemon_no_bus_def daemon_no_vtable_def daemon_no_name_def daemon_idle_def
      LEAVE_W_ERR_def EXIT_SUCCESS_def)


section \<open>The inversion of a saturated pair\<close>

lemma lg2_one: "lg2 1 = 0"
  by (simp add: lg2.simps)

lemma rn64_one: "rn64 1 = 1"
  by (simp add: rn64_def lg2_one pow2_def round_even_def Let_def)

lemma udiv_255: "udiv 255 255 = Finite 1"
  by (simp add: udiv_def ddiv_def rn64_one)

text \<open>
  C9. With \<open>R = B = 255\<close> both bounds of the search start at 6500; the first midpoint is 6500,
  whose red and blue are both 255, so the loop ends after one execution of its body, and
  \<open>get_temp\<close> returns 6500.
\<close>

theorem get_temp_saturated:
  "min_temp_init 255 = 6500 \<and> max_temp_init 255 = 6500
   \<and> (6500 + 6500) sdiv 2 = (6500 :: int)
   \<and> get_red lg 6500 = Some 255 \<and> get_blue lg 6500 = Some 255
   \<and> bisect lg 255 255 6500 6500 0 = Some (6500, 1)
   \<and> get_temp_iters lg 255 255 = Some (6500, 1)
   \<and> get_temp lg 255 255 = Some 6500"
proof -
  have mid: "(6500 + 6500) sdiv 2 = (6500 :: int)"
    by (simp add: signed_divide_int_def)
  have r: "get_red lg 6500 = Some 255" by (simp add: get_red_def)
  have b: "get_blue lg 6500 = Some 255" by (simp add: get_blue_def)
  have loop: "bisect lg 255 255 6500 6500 0 = Some (6500, 1)"
    by (subst bisect.simps) (simp add: mid r b Let_def)
  have fit: "fit50 lg 255 255 6500 = Some 6500"
    by (simp add: fit50_def signed_modulo_int_def signed_divide_int_def)
  have it: "get_temp_iters lg 255 255 = Some (6500, 1)"
    by (simp add: get_temp_iters_def min_temp_init_def max_temp_init_def loop fit)
  show ?thesis
    by (simp add: mid r b loop it get_temp_def min_temp_init_def max_temp_init_def)
qed

end
